theory Spec2Isabelle
  imports Complex_Main "HOL-Library.Multiset" "HOL-Library.Sublist"
    "HOL-Library.List_Lexorder" "HOL-Library.Char_ord"
begin

section \<open>JavaScript primitives used by the evaluation scripts\<close>

text \<open>
  Strings are lists of code units. The two string methods used by \<open>chunkFile\<close> are
  written out with the index conventions of the language: \<open>slice\<close> counts a negative
  index from the end and clamps both ends to the string, \<open>lastIndexOf\<close> clamps its
  start position to the string and answers \<open>-1\<close> when nothing is found.
\<close>

definition js_slice :: "'a list \<Rightarrow> int \<Rightarrow> int \<Rightarrow> 'a list" where
  "js_slice s b e =
     (let n = int (length s);
          from = (if b < 0 then max (n + b) 0 else min b n);
          to = (if e < 0 then max (n + e) 0 else min e n)
      in take (nat (to - from)) (drop (nat from) s))"

fun lastIndexUpTo :: "'a \<Rightarrow> 'a list \<Rightarrow> nat \<Rightarrow> int" where
  "lastIndexUpTo c s 0 = (if s \<noteq> [] \<and> s ! 0 = c then 0 else - 1)"
| "lastIndexUpTo c s (Suc k) =
     (if Suc k < length s \<and> s ! Suc k = c then int (Suc k) else lastIndexUpTo c s k)"

definition js_lastIndexOf :: "'a list \<Rightarrow> 'a \<Rightarrow> int \<Rightarrow> int" where
  "js_lastIndexOf s c pos =
     (if s = [] then - 1
      else lastIndexUpTo c s (nat (min (max pos 0) (int (length s) - 1))))"

definition newline :: char where
  "newline = CHR 0x0A"

section \<open>chunkFile (codebase benchmark)\<close>

record CodeFile =
  cf_path :: string
  cf_content :: string
  cf_language :: string
  cf_lines :: int
  cf_size :: int

record chunk =
  ch_content :: string
  ch_part :: int

text \<open>
  The \<open>while\<close> loop of \<open>chunkFile\<close>, with its three mutable variables \<open>start\<close>,
  \<open>part\<close> and \<open>chunks\<close> as arguments. The numbers \<open>maxChars\<close> and \<open>overlap\<close> are
  integers of either sign. The loop leaves through its condition or through the
  \<open>break\<close> of the safety limit.
\<close>

function chunkLoop :: "string \<Rightarrow> int \<Rightarrow> int \<Rightarrow> int \<Rightarrow> int \<Rightarrow> chunk list \<Rightarrow> chunk list" where
  "chunkLoop content maxChars overlap start part chunks =
     (if start < int (length content) then
        (let end = min (start + maxChars) (int (length content));
             breakPoint =
               (if end < int (length content) then
                  (let lastNewline = js_lastIndexOf content newline end
                   in if real_of_int lastNewline > real_of_int start + real_of_int maxChars / 2
                      then lastNewline + 1 else end)
                else end);
             chunks' = chunks @ [\<lparr>ch_content = js_slice content start breakPoint, ch_part = part\<rparr>];
             start' = (if breakPoint - overlap < 0 then 0 else breakPoint - overlap);
             part' = part + 1
         in if part' > 50 then chunks'
            else chunkLoop content maxChars overlap start' part' chunks')
      else chunks)"
  by pat_completeness auto
termination
  by (relation "measure (\<lambda>(content, maxChars, overlap, start, part, chunks). nat (51 - part))") auto

declare chunkLoop.simps [simp del]

definition chunkFile :: "CodeFile \<Rightarrow> int \<Rightarrow> int \<Rightarrow> chunk list" where
  "chunkFile file maxChars overlap =
     (if int (length (cf_content file)) \<le> maxChars
      then [\<lparr>ch_content = cf_content file, ch_part = 1\<rparr>]
      else chunkLoop (cf_content file) maxChars overlap 0 1 [])"

section \<open>cosineSim and vectorSearchMarkdown (markdown baseline of the evaluations)\<close>

text \<open>
  Numbers are exact reals. The one special value that the similarity search can
  produce is \<open>NaN\<close>, written \<open>None\<close>: reading an array past its end gives
  \<open>undefined\<close>, which arithmetic turns into \<open>NaN\<close>, and so does \<open>0 / 0\<close>.
\<close>

type_synonym jsnum = "real option"

definition js_at :: "real list \<Rightarrow> nat \<Rightarrow> jsnum" where
  "js_at xs i = (if i < length xs then Some (xs ! i) else None)"

definition num_add :: "jsnum \<Rightarrow> jsnum \<Rightarrow> jsnum" where
  "num_add x y = (case (x, y) of (Some u, Some v) \<Rightarrow> Some (u + v) | _ \<Rightarrow> None)"

definition num_sub :: "jsnum \<Rightarrow> jsnum \<Rightarrow> jsnum" where
  "num_sub x y = (case (x, y) of (Some u, Some v) \<Rightarrow> Some (u - v) | _ \<Rightarrow> None)"

definition num_mul :: "jsnum \<Rightarrow> jsnum \<Rightarrow> jsnum" where
  "num_mul x y = (case (x, y) of (Some u, Some v) \<Rightarrow> Some (u * v) | _ \<Rightarrow> None)"

text \<open>
  One pass of the \<open>for\<close> loop of \<open>cosineSim\<close> over the index \<open>i\<close>, on the three
  accumulators \<open>dot\<close>, \<open>normA\<close> and \<open>normB\<close>.
\<close>

definition cosineStep :: "real list \<Rightarrow> real list \<Rightarrow> nat \<Rightarrow> jsnum \<times> jsnum \<times> jsnum \<Rightarrow> jsnum \<times> jsnum \<times> jsnum" where
  "cosineStep a b i acc =
     (case acc of (dot, normA, normB) \<Rightarrow>
        (num_add dot (num_mul (js_at a i) (js_at b i)),
         num_add normA (num_mul (js_at a i) (js_at a i)),
         num_add normB (num_mul (js_at b i) (js_at b i))))"

text \<open>
  The loop runs over the indices of \<open>a\<close>. The quotient has a zero denominator only
  when one of the two sums of squares is zero; the dot product is then zero as well
  (lemma \<open>cosineSim_zero_denominator\<close> below), so the quotient is \<open>0 / 0\<close>.
\<close>

definition cosineSim :: "real list \<Rightarrow> real list \<Rightarrow> jsnum" where
  "cosineSim a b =
     (case fold (cosineStep a b) [0..<length a] (Some 0, Some 0, Some 0) of
        (Some dot, Some normA, Some normB) \<Rightarrow>
          (if sqrt normA * sqrt normB = 0 then None
           else Some (dot / (sqrt normA * sqrt normB)))
      | _ \<Rightarrow> None)"

datatype error = TypeError

record scored =
  sc_chunk :: string
  sc_score :: jsnum

text \<open>The comparator handed to \<open>sort\<close>: \<open>(a, b) => b.score - a.score\<close>.\<close>

definition compareScore :: "scored \<Rightarrow> scored \<Rightarrow> jsnum" where
  "compareScore a b = num_sub (sc_score b) (sc_score a)"

text \<open>
  \<open>Array.prototype.sort\<close> reads a comparator result of \<open>NaN\<close> as \<open>0\<close> and is stable.
  For a comparator that orders its arguments consistently (here: when no score is
  \<open>NaN\<close>) the result is thereby determined, and it is the one the insertion sort below
  computes. When some score is \<open>NaN\<close> the comparator is not consistent, the language
  leaves the order to the engine, and the insertion sort below is not in general the
  order an engine produces. The two agree on an array in which the comparator, called
  on an element and its right neighbour in either order, finds the two in order or
  gives \<open>0\<close>: the insertion sort returns such an array as it is, and so does an engine
  whose merge sort first looks for an ascending run, which then is the whole array.
  Such arrays are the only ones with a \<open>NaN\<close> score that are used further down.
\<close>

definition js_cmp :: "('a \<Rightarrow> 'a \<Rightarrow> jsnum) \<Rightarrow> 'a \<Rightarrow> 'a \<Rightarrow> real" where
  "js_cmp comparefn x y = (case comparefn x y of None \<Rightarrow> 0 | Some v \<Rightarrow> v)"

fun insertBy :: "('a \<Rightarrow> 'a \<Rightarrow> real) \<Rightarrow> 'a \<Rightarrow> 'a list \<Rightarrow> 'a list" where
  "insertBy cmp x [] = [x]"
| "insertBy cmp x (y # ys) = (if cmp x y \<le> 0 then x # y # ys else y # insertBy cmp x ys)"

definition js_sort :: "('a \<Rightarrow> 'a \<Rightarrow> jsnum) \<Rightarrow> 'a list \<Rightarrow> 'a list" where
  "js_sort comparefn xs = foldr (insertBy (js_cmp comparefn)) xs []"

text \<open>
  The body of \<open>vectorSearchMarkdown\<close> after its first statement, the awaited
  \<open>embedder.embed(query)\<close>, whose answer is \<open>queryEmb\<close> (the function from its first
  statement is \<open>vectorSearchMarkdown_query\<close> further down). \<open>chunks.map\<close> reads \<open>embeddings[i]\<close> for every chunk; where that
  is \<open>undefined\<close> and the query vector is not empty, \<open>cosineSim\<close> indexes \<open>undefined\<close>
  and a \<open>TypeError\<close> is thrown.
\<close>

definition vectorSearchMarkdown :: "real list \<Rightarrow> string list \<Rightarrow> real list list \<Rightarrow> int \<Rightarrow> error + string list" where
  "vectorSearchMarkdown queryEmb chunks embeddings limit =
     (if length embeddings < length chunks \<and> queryEmb \<noteq> [] then Inl TypeError
      else
        (let scored = map (\<lambda>i. \<lparr>sc_chunk = chunks ! i,
                                  sc_score = (if i < length embeddings
                                              then cosineSim queryEmb (embeddings ! i) else None)\<rparr>)
                          [0..<length chunks];
             sorted = js_sort compareScore scored
         in Inr (map sc_chunk (js_slice sorted 0 limit))))"

text \<open>
  The mathematical notions the similarity search is measured against: Euclidean norm,
  dot product and cosine similarity of two vectors.
\<close>

definition euclidNorm :: "real list \<Rightarrow> real" where
  "euclidNorm a = sqrt (\<Sum>x\<leftarrow>a. x * x)"

definition dotProduct :: "real list \<Rightarrow> real list \<Rightarrow> real" where
  "dotProduct a b = (\<Sum>(x, y)\<leftarrow>zip a b. x * y)"

definition cosine :: "real list \<Rightarrow> real list \<Rightarrow> real" where
  "cosine a b = dotProduct a b / (euclidNorm a * euclidNorm b)"

section \<open>callGemini (LOCOMO harness and RAG baseline)\<close>

text \<open>
  A thrown value with the three properties the retry logic inspects: \<open>err.name\<close>,
  \<open>err.message\<close> and \<open>err.cause?.code\<close>.
\<close>

record js_error =
  err_name :: string
  err_message :: string
  err_code :: "string option"

definition newError :: "string \<Rightarrow> js_error" where
  "newError msg = \<lparr>err_name = ''Error'', err_message = msg, err_code = None\<rparr>"

definition js_includes :: "string \<Rightarrow> string \<Rightarrow> bool" where
  "js_includes s searchString = sublist searchString s"

text \<open>A whole number as it appears in a template literal.\<close>

definition digitChar :: "nat \<Rightarrow> char" where
  "digitChar d = ''0123456789'' ! d"

function decimalDigits :: "nat \<Rightarrow> string \<Rightarrow> string" where
  "decimalDigits n acc =
     (let acc' = digitChar (n mod 10) # acc
      in if n div 10 = 0 then acc' else decimalDigits (n div 10) acc')"
  by pat_completeness auto
termination
  by (relation "measure fst") auto

declare decimalDigits.simps [simp del]

definition js_string_of_number :: "int \<Rightarrow> string" where
  "js_string_of_number i =
     (if i < 0 then CHR ''-'' # decimalDigits (nat (- i)) [] else decimalDigits (nat i) [])"

text \<open>
  What one \<open>fetch\<close> gives back: a rejection, or a response. Of a response the helpers
  read the status, the body as text, and the JSON body; \<open>resp_candidate\<close> is the value
  of \<open>data.candidates?.[0]?.content?.parts?.[0]?.text\<close> after \<open>data = await
  response.json()\<close> (\<open>Inl\<close> when parsing or the property access throws, \<open>None\<close> for
  \<open>undefined\<close>), and \<open>resp_data\<close> is \<open>JSON.stringify(data)\<close>.
\<close>

record response =
  resp_status :: int
  resp_text :: string
  resp_candidate :: "js_error + string option"
  resp_data :: string

datatype fetch_outcome = Rejected js_error | Resolved response

definition resp_ok :: "response \<Rightarrow> bool" where
  "resp_ok r = (200 \<le> resp_status r \<and> resp_status r \<le> 299)"

text \<open>
  The trace of a call: every \<open>fetch\<close> with its attempt number, every pacing
  \<open>sleep(RATE_LIMIT_MS)\<close>, and every wait that precedes a retry (\<open>Backoff\<close>).
\<close>

datatype event = Sleep int | Backoff int | Fetch nat

fun backoffs :: "event list \<Rightarrow> int list" where
  "backoffs [] = []"
| "backoffs (Backoff ms # tr) = ms # backoffs tr"
| "backoffs (_ # tr) = backoffs tr"

fun fetches :: "event list \<Rightarrow> nat" where
  "fetches [] = 0"
| "fetches (Fetch k # tr) = Suc (fetches tr)"
| "fetches (_ # tr) = fetches tr"

definition prepend :: "event list \<Rightarrow> 'a \<times> event list \<Rightarrow> 'a \<times> event list" where
  "prepend evs res = (fst res, evs @ snd res)"

datatype attempt_result = Return string | Continue

subsection \<open>The LOCOMO harness\<close>

definition RATE_LIMIT_MS :: int where
  "RATE_LIMIT_MS = 800"

definition MAX_RETRIES :: nat where
  "MAX_RETRIES = 10"

definition isTransient :: "js_error \<Rightarrow> bool" where
  "isTransient err =
     (err_code err = Some ''ECONNRESET'' \<or> js_includes (err_message err) ''fetch failed'' \<or>
      err_code err = Some ''ETIMEDOUT'' \<or> err_name err = ''TimeoutError'' \<or>
      err_name err = ''AbortError'')"

text \<open>
  The body of the \<open>try\<close> block: \<open>Inl\<close> is what it throws into the \<open>catch\<close>,
  \<open>Continue\<close> is the branch for status 429 or 5xx (which waits and continues),
  \<open>Return\<close> carries the text returned.
\<close>

definition callGemini_try :: "fetch_outcome \<Rightarrow> js_error + attempt_result" where
  "callGemini_try outcome =
     (case outcome of
        Rejected err \<Rightarrow> Inl err
      | Resolved response \<Rightarrow>
          if resp_status response = 429 \<or> resp_status response \<ge> 500 then Inr Continue
          else if \<not> resp_ok response then
            Inl (newError (''Gemini API failed: '' @ js_string_of_number (resp_status response) @ '' '' @
                           resp_text response))
          else (case resp_candidate response of
                  Inl err \<Rightarrow> Inl err
                | Inr None \<Rightarrow> Inr (Return '''')
                | Inr (Some t) \<Rightarrow> Inr (Return t)))"

function callGeminiLoop :: "(nat \<Rightarrow> fetch_outcome) \<Rightarrow> nat \<Rightarrow> (js_error + string) \<times> event list" where
  "callGeminiLoop fetch attempt =
     (if attempt \<le> MAX_RETRIES then
        (let backoff = RATE_LIMIT_MS * 2 ^ attempt in
         case callGemini_try (fetch attempt) of
           Inr Continue \<Rightarrow>
             prepend [Sleep RATE_LIMIT_MS, Fetch attempt, Backoff backoff]
               (callGeminiLoop fetch (attempt + 1))
         | Inr (Return t) \<Rightarrow> (Inr t, [Sleep RATE_LIMIT_MS, Fetch attempt])
         | Inl err \<Rightarrow>
             if attempt < MAX_RETRIES \<and> isTransient err then
               prepend [Sleep RATE_LIMIT_MS, Fetch attempt, Backoff backoff]
                 (callGeminiLoop fetch (attempt + 1))
             else (Inl err, [Sleep RATE_LIMIT_MS, Fetch attempt]))
      else (Inl (newError ''Gemini API failed after 10 retries''), []))"
  by pat_completeness auto
termination
  by (relation "measure (\<lambda>(fetch, attempt). Suc MAX_RETRIES - attempt)") auto

declare callGeminiLoop.simps [simp del]

text \<open>
  The network is a function from the request (prompt, JSON mode, model) and the attempt
  number to the outcome of that \<open>fetch\<close>.
\<close>

definition callGemini :: "(string \<Rightarrow> bool \<Rightarrow> string \<Rightarrow> nat \<Rightarrow> fetch_outcome) \<Rightarrow> string \<Rightarrow> bool \<Rightarrow> string \<Rightarrow> (js_error + string) \<times> event list" where
  "callGemini fetch prompt jsonMode model = callGeminiLoop (fetch prompt jsonMode model) 1"

subsection \<open>The RAG baseline\<close>

definition callGeminiRag_try :: "fetch_outcome \<Rightarrow> js_error + attempt_result" where
  "callGeminiRag_try outcome =
     (case outcome of
        Rejected e \<Rightarrow> Inl e
      | Resolved res \<Rightarrow>
          if resp_status res = 429 then Inr Continue
          else (case resp_candidate res of
                  Inl e \<Rightarrow> Inl e
                | Inr None \<Rightarrow> Inl (newError (resp_data res))
                | Inr (Some t) \<Rightarrow> if t \<noteq> [] then Inr (Return t) else Inl (newError (resp_data res))))"

function callGeminiRagLoop :: "(nat \<Rightarrow> fetch_outcome) \<Rightarrow> nat \<Rightarrow> (js_error + string) \<times> event list" where
  "callGeminiRagLoop fetch attempt =
     (if attempt < 3 then
        (case callGeminiRag_try (fetch attempt) of
           Inr Continue \<Rightarrow>
             prepend [Fetch attempt, Backoff (5000 * (int attempt + 1))]
               (callGeminiRagLoop fetch (attempt + 1))
         | Inr (Return t) \<Rightarrow> (Inr t, [Fetch attempt])
         | Inl e \<Rightarrow>
             if attempt = 2 then (Inl e, [Fetch attempt])
             else prepend [Fetch attempt, Backoff 3000] (callGeminiRagLoop fetch (attempt + 1)))
      else (Inl (newError ''Failed after 3 attempts''), []))"
  by pat_completeness auto
termination
  by (relation "measure (\<lambda>(fetch, attempt). 3 - attempt)") auto

declare callGeminiRagLoop.simps [simp del]

definition callGeminiRag :: "(string \<Rightarrow> bool \<Rightarrow> nat \<Rightarrow> fetch_outcome) \<Rightarrow> string \<Rightarrow> bool \<Rightarrow> (js_error + string) \<times> event list" where
  "callGeminiRag fetch prompt jsonMode = callGeminiRagLoop (fetch prompt jsonMode) 0"





text \<open>Three outcomes used in the examples below.\<close>

definition rateLimited :: fetch_outcome where
  "rateLimited = Resolved \<lparr>resp_status = 429, resp_text = ''Too Many Requests'',
     resp_candidate = Inr None, resp_data = ''{}''\<rparr>"



text \<open>A network on which every attempt has the same outcome, for either helper.\<close>

definition always :: "fetch_outcome \<Rightarrow> string \<Rightarrow> bool \<Rightarrow> string \<Rightarrow> nat \<Rightarrow> fetch_outcome" where
  "always outcome prompt jsonMode model k = outcome"

definition alwaysRag :: "fetch_outcome \<Rightarrow> string \<Rightarrow> bool \<Rightarrow> nat \<Rightarrow> fetch_outcome" where
  "alwaysRag outcome prompt jsonMode k = outcome"

section \<open>answerWithBasicRAG (RAG baseline)\<close>

text \<open>
  Modelled from the spec: the lifecycle status of a memory (section 3); the type
  declarations of the store are missing.
\<close>

datatype mem_status = Active | Pending | Fulfilled | Superseded | Archived

text \<open>
  Modelled from the spec: the memory record (section 3), with the attributes that the
  evaluation and the vault operations further down read or write; the type declarations
  of the store are missing. Instants are integers (milliseconds); \<open>valid_until = None\<close>
  stands for an open validity interval.
\<close>

record Memory =
  mem_id :: string
  content :: string
  status :: mem_status
  salience :: real
  valid_from :: int
  valid_until :: "int option"
  last_accessed_at :: int
  reinforcement_count :: nat
  superseded_by :: "string option"

text \<open>
  Modelled from the spec: an entry of a vector search, of which the evaluation reads the
  memory id (section 4.1, \<open>vectorSearch\<close> returns ids with similarities); the type
  declarations of the store are missing.
\<close>

record VectorResult =
  memoryId :: string

text \<open>
  Modelled from the spec: the store as the evaluation uses it, through its two methods
  \<open>searchByVector\<close> and \<open>getMemoryDirect\<close> (which answers \<open>null\<close>, here \<open>None\<close>, for an
  unknown id); the store is missing and both methods are parameters. The embedder,
  likewise a collaborator, is the function \<open>embed\<close>, which may throw.
\<close>

record MemoryStore =
  searchByVector :: "real list \<Rightarrow> nat \<Rightarrow> VectorResult list"
  getMemoryDirect :: "string \<Rightarrow> Memory option"



text \<open>The \<open>for\<close> loop that hydrates the vector results and collects \<open>memories\<close>.\<close>

fun recallLoop :: "MemoryStore \<Rightarrow> VectorResult list \<Rightarrow> string list \<Rightarrow> string list" where
  "recallLoop store [] memories = memories"
| "recallLoop store (vr # vectorResults) memories =
     (case getMemoryDirect store (memoryId vr) of
        None \<Rightarrow> recallLoop store vectorResults memories
      | Some mem \<Rightarrow>
          if status mem \<noteq> Archived
          then recallLoop store vectorResults (memories @ [content mem])
          else recallLoop store vectorResults memories)"

fun js_join :: "string list \<Rightarrow> string \<Rightarrow> string" where
  "js_join [] sep = []"
| "js_join [x] sep = x"
| "js_join (x # y # ys) sep = x @ sep @ js_join (y # ys) sep"

text \<open>
  \<open>String.prototype.trim\<close> removes white space and line terminators from both ends.
  Among the code units that a \<open>char\<close> holds (0 to 255) these are tab, line feed,
  vertical tab, form feed, carriage return, space and the no-break space U+00A0; the
  other white space of the language (U+1680, U+2000 to U+200A, U+2028, U+2029, U+202F,
  U+205F, U+3000, U+FEFF) lies above U+00FF and does not occur in a \<open>string\<close>.
\<close>

definition isWhiteSpace :: "char \<Rightarrow> bool" where
  "isWhiteSpace c =
     (c \<in> set [CHR 0x09, CHR 0x0A, CHR 0x0B, CHR 0x0C, CHR 0x0D, CHR 0x20, CHR 0xA0])"

definition js_trim :: "string \<Rightarrow> string" where
  "js_trim s = rev (dropWhile isWhiteSpace (rev (dropWhile isWhiteSpace s)))"

definition ragPrompt :: "string \<Rightarrow> string \<Rightarrow> string" where
  "ragPrompt context question =
     ''Based on the following memories, answer the question accurately and completely.'' @
     [newline, newline] @ ''Memories:'' @ [newline] @ context @ [newline, newline] @
     ''Question: '' @ question @ [newline, newline] @ ''Answer:''"

record RagAnswer =
  answer :: string
  tokensUsed :: int
  memoriesRecalled :: nat

definition answerWithBasicRAG :: "MemoryStore \<Rightarrow> (string \<Rightarrow> js_error + real list) \<Rightarrow> (string \<Rightarrow> bool \<Rightarrow> nat \<Rightarrow> fetch_outcome) \<Rightarrow> string \<Rightarrow> js_error + RagAnswer" where
  "answerWithBasicRAG store embedder fetch question =
     (case embedder question of
        Inl e \<Rightarrow> Inl e
      | Inr queryEmbedding \<Rightarrow>
          (let vectorResults = searchByVector store queryEmbedding 20;
               memories = recallLoop store vectorResults [];
               context = js_join memories [newline, newline];
               prompt = ragPrompt context question
           in case fst (callGeminiRag fetch prompt False) of
                Inl e \<Rightarrow> Inl e
              | Inr answer' \<Rightarrow>
                  Inr \<lparr>answer = js_trim answer',
                       tokensUsed = \<lceil>real (length prompt + length answer') / 4\<rceil>,
                       memoriesRecalled = length memories\<rparr>))"

text \<open>
  For stating what the loop keeps: the memories behind the vector results, in order
  (results whose id the store does not know are skipped), and a store, an embedder and
  a network used in the examples.
\<close>

definition hydrate :: "MemoryStore \<Rightarrow> VectorResult list \<Rightarrow> Memory list" where
  "hydrate store vectorResults =
     List.map_filter (\<lambda>vr. getMemoryDirect store (memoryId vr)) vectorResults"


definition memA :: Memory where
  "memA = \<lparr>mem_id = ''a'', content = ''Alex works at Corp A'', status = Archived,
     salience = 0.5, valid_from = 0, valid_until = None, last_accessed_at = 0,
     reinforcement_count = 0, superseded_by = None\<rparr>"

definition memB :: Memory where
  "memB = \<lparr>mem_id = ''b'', content = ''Alex moved to Corp B'', status = Active,
     salience = 0.5, valid_from = 10, valid_until = None, last_accessed_at = 10,
     reinforcement_count = 0, superseded_by = None\<rparr>"

definition demoStore :: MemoryStore where
  "demoStore = \<lparr>searchByVector = (\<lambda>queryEmbedding k.
       [\<lparr>memoryId = ''a''\<rparr>, \<lparr>memoryId = ''gone''\<rparr>, \<lparr>memoryId = ''b''\<rparr>]),
     getMemoryDirect = (\<lambda>i. if i = ''a'' then Some memA else if i = ''b'' then Some memB else None)\<rparr>"


definition demoEmbed :: "string \<Rightarrow> js_error + real list" where
  "demoEmbed question = Inr [1, 0]"

text \<open>An embedder whose call is rejected (the quota of the embedding API is used up).\<close>

definition quotaError :: js_error where
  "quotaError = \<lparr>err_name = ''Error'', err_message = ''Gemini embedding error: 429'',
     err_code = None\<rparr>"

definition failingEmbed :: "string \<Rightarrow> js_error + real list" where
  "failingEmbed question = Inl quotaError"

text \<open>A network that answers every request with the prompt it was sent.\<close>

definition echoPrompt :: "string \<Rightarrow> bool \<Rightarrow> nat \<Rightarrow> fetch_outcome" where
  "echoPrompt prompt jsonMode k = Resolved \<lparr>resp_status = 200, resp_text = prompt,
     resp_candidate = Inr (Some prompt), resp_data = prompt\<rparr>"

definition answered :: fetch_outcome where
  "answered = Resolved \<lparr>resp_status = 200, resp_text = ''{}'',
     resp_candidate = Inr (Some ''Corp B''), resp_data = ''{}''\<rparr>"

section \<open>Scoring of a scenario and computeEQS (honest evaluation)\<close>

text \<open>
  A scenario, without the memories it ingests (the scoring does not read them), and
  the result of running it.
\<close>

record Scenario =
  name :: string
  category :: string
  query :: string
  expectedHits :: "string list"
  expectedMisses :: "string list option"
  expectedFirst :: "string option"
  idealResultCount :: "nat option"

record ScenarioResult =
  res_name :: string
  res_category :: string
  accuracy :: real
  relevance :: real
  freshness :: real
  efficiency :: real
  latencyMs :: real
  passed :: bool
  details :: "string option"

definition includedIn :: "string list \<Rightarrow> string \<Rightarrow> bool" where
  "includedIn recalled e = list_ex (\<lambda>r. js_includes r e) recalled"

definition orEmpty :: "'a list option \<Rightarrow> 'a list" where
  "orEmpty xs = (case xs of None \<Rightarrow> [] | Some ys \<Rightarrow> ys)"

text \<open>The loop over \<open>recalled\<close> that counts relevant results, with its counter.\<close>

fun relevantLoop :: "Scenario \<Rightarrow> string list \<Rightarrow> real \<Rightarrow> real" where
  "relevantLoop scenario [] relevantCount = relevantCount"
| "relevantLoop scenario (r # recalled) relevantCount =
     (let isExpectedHit = list_ex (\<lambda>e. js_includes r e) (expectedHits scenario);
          isExpectedMiss = list_ex (\<lambda>e. js_includes r e) (orEmpty (expectedMisses scenario))
      in if isExpectedHit then relevantLoop scenario recalled (relevantCount + 1)
         else if isExpectedMiss then relevantLoop scenario recalled (relevantCount - 0.5)
         else relevantLoop scenario recalled relevantCount)"

definition js_findIndex :: "('a \<Rightarrow> bool) \<Rightarrow> 'a list \<Rightarrow> int" where
  "js_findIndex P xs = (if list_ex P xs then int (length (takeWhile (\<lambda>x. \<not> P x) xs)) else - 1)"

text \<open>
  The scoring part of \<open>runScenario\<close>: from the recalled contents and the measured
  latency to the result record. \<open>expectedFirst\<close> counts only when it is a non-empty
  string. In the efficiency score a division by \<open>ideal * 2 = 0\<close> gives \<open>Infinity\<close>, and
  \<open>Math.max(0, 1 - Infinity)\<close> is \<open>0\<close>.
\<close>

definition runScenario_score :: "Scenario \<Rightarrow> string list \<Rightarrow> real \<Rightarrow> ScenarioResult" where
  "runScenario_score scenario recalled latency =
     (let hitsFound = length (filter (includedIn recalled) (expectedHits scenario));
          accuracy' = (if length (expectedHits scenario) > 0
                       then real hitsFound / real (length (expectedHits scenario)) else 1);
          relevantCount = relevantLoop scenario recalled 0;
          relevance' = (if length recalled > 0
                        then max 0 (min 1 (relevantCount / real (length recalled))) else 0);
          freshness' =
            (case expectedFirst scenario of
               None \<Rightarrow> 1
             | Some first \<Rightarrow>
                 if first = [] then 1
                 else if length recalled > 0 \<and> js_includes (recalled ! 0) first then 1
                 else if includedIn recalled first then
                   (let pos = js_findIndex (\<lambda>r. js_includes r first) recalled
                    in max 0 (1 - real_of_int pos / real (length recalled)))
                 else 0);
          ideal = (case idealResultCount scenario of
                     None \<Rightarrow> length (expectedHits scenario) | Some i \<Rightarrow> i);
          efficiency' =
            (if length recalled \<le> ideal then 1
             else if ideal = 0 then 0
             else max 0 (1 - (real (length recalled) - real ideal) / (real ideal * 2)));
          missingHits = filter (\<lambda>e. \<not> includedIn recalled e) (expectedHits scenario);
          unwantedHits = filter (includedIn recalled) (orEmpty (expectedMisses scenario));
          details' =
            (if length missingHits > 0 \<or> length unwantedHits > 0 then
               Some (js_join
                 ((if length missingHits > 0 then [''missing: '' @ js_join missingHits '', ''] else []) @
                  (if length unwantedHits > 0 then [''unwanted: '' @ js_join unwantedHits '', ''] else []))
                 '' | '')
             else None)
      in \<lparr>res_name = name scenario, res_category = category scenario,
          accuracy = accuracy', relevance = relevance', freshness = freshness',
          efficiency = efficiency', latencyMs = latency,
          passed = (accuracy' \<ge> 0.5), details = details'\<rparr>)"

record eqs_weights =
  w_accuracy :: real
  w_relevance :: real
  w_freshness :: real
  w_efficiency :: real
  w_latency :: real

definition weights :: eqs_weights where
  "weights = \<lparr>w_accuracy = 0.40, w_relevance = 0.20, w_freshness = 0.15,
     w_efficiency = 0.15, w_latency = 0.10\<rparr>"

text \<open>\<open>Math.round\<close> rounds to the nearest integer, a half upwards.\<close>

definition js_round :: "real \<Rightarrow> int" where
  "js_round x = \<lfloor>x + 1 / 2\<rfloor>"

text \<open>One pass of the loop of \<open>computeEQS\<close> over a result, on the five totals.\<close>

definition eqsStep :: "ScenarioResult \<Rightarrow> real \<times> real \<times> real \<times> real \<times> real \<Rightarrow> real \<times> real \<times> real \<times> real \<times> real" where
  "eqsStep r totals =
     (case totals of (totalAccuracy, totalRelevance, totalFreshness, totalEfficiency, totalLatency) \<Rightarrow>
        (totalAccuracy + accuracy r,
         totalRelevance + relevance r,
         totalFreshness + freshness r,
         totalEfficiency + efficiency r,
         totalLatency + max 0 (min 1 (1 - (latencyMs r - 50) / 450))))"

text \<open>
  With no results the averages are \<open>0 / 0\<close> and the function returns \<open>NaN\<close>, here
  \<open>None\<close>.
\<close>

definition computeEQS :: "ScenarioResult list \<Rightarrow> int option" where
  "computeEQS results =
     (case fold eqsStep results (0, 0, 0, 0, 0) of
        (totalAccuracy, totalRelevance, totalFreshness, totalEfficiency, totalLatency) \<Rightarrow>
          (let n = real (length results);
               score = (totalAccuracy / n) * w_accuracy weights +
                       (totalRelevance / n) * w_relevance weights +
                       (totalFreshness / n) * w_freshness weights +
                       (totalEfficiency / n) * w_efficiency weights +
                       (totalLatency / n) * w_latency weights
           in if length results = 0 then None else Some (js_round (score * 100))))"

definition inUnit :: "real \<Rightarrow> bool" where
  "inUnit x = (0 \<le> x \<and> x \<le> 1)"

definition latencyScore :: "ScenarioResult \<Rightarrow> real" where
  "latencyScore r = max 0 (min 1 (1 - (latencyMs r - 50) / 450))"

definition demoResult :: ScenarioResult where
  "demoResult = \<lparr>res_name = ''Superseded job title dedup'', res_category = ''temporal-dedup'',
     accuracy = 1, relevance = 0.5, freshness = 1, efficiency = 1, latencyMs = 50,
     passed = True, details = None\<rparr>"

section \<open>The vault: store operations and recall pipeline\<close>

text \<open>
  The vault engine (\<open>src/vault.js\<close>, \<open>src/store.js\<close>) is imported by the evaluation
  scripts but is not among the sources at hand. Its operations are therefore written
  down from the specification: the store operations of section 4.1 with the lifecycle
  of section 3, and the phases of the recall pipeline of section 4.5.
\<close>

text \<open>
  Modelled from the spec: the memories of a vault, by id; the store is missing.
\<close>

type_synonym vault = "string \<rightharpoonup> Memory"

text \<open>
  Modelled from the spec: the error kinds of section 7 that the operations below can
  raise; the store is missing.
\<close>

datatype store_error = InvalidPayload | Conflict | NotFound

text \<open>
  Modelled from the spec: \<open>insert(memory)\<close> of the store (section 4.1), which is
  missing. It takes a whole memory and fails with \<open>Conflict\<close> if the id exists; the
  salience is clamped to \<open>[0, 1]\<close>. The spec names no check of the status or of the
  supersession attributes of the memory inserted. Entities, edges and the embedding are
  left out.
\<close>

definition insert_memory :: "vault \<Rightarrow> Memory \<Rightarrow> store_error + vault" where
  "insert_memory v m =
     (if v (mem_id m) \<noteq> None then Inl Conflict
      else Inr (v(mem_id m \<mapsto> m\<lparr>salience := max 0 (min 1 (salience m))\<rparr>)))"

text \<open>
  Modelled from the spec: the memory that \<open>remember(content, { salience?, status?,
  \<dots> })\<close> of the public surface (section 6.1) hands to \<open>insert\<close>; the vault is
  missing. The status is the caller's (the stress evaluation passes
  \<open>status: memories[i].status\<close>, which is \<open>'superseded'\<close> for the outdated half of a
  correction pair); \<open>remember\<close> has no option for the validity interval or the
  successor, so the memory is current truth from \<open>now\<close> on and names no successor.
  The id \<open>i\<close> is the one the vault issues.
\<close>

definition remembered :: "string \<Rightarrow> string \<Rightarrow> mem_status \<Rightarrow> real \<Rightarrow> int \<Rightarrow> Memory" where
  "remembered i c st sal now =
     \<lparr>mem_id = i, content = c, status = st, salience = sal, valid_from = now,
      valid_until = None, last_accessed_at = now, reinforcement_count = 0,
      superseded_by = None\<rparr>"

text \<open>
  Modelled from the spec: \<open>supersede(oldId, newId, at)\<close> of the store, which is missing:
  it sets \<open>old.valid_until = at\<close>, \<open>old.status = superseded\<close> and
  \<open>old.superseded_by = newId\<close>, atomically. An unknown id is \<open>NotFound\<close>. The spec names
  no other precondition.
\<close>

definition supersede :: "vault \<Rightarrow> string \<Rightarrow> string \<Rightarrow> int \<Rightarrow> store_error + vault" where
  "supersede v oldId newId atTime =
     (case (v oldId, v newId) of
        (Some old, Some new) \<Rightarrow>
          Inr (v(oldId \<mapsto> old\<lparr>valid_until := Some atTime, status := Superseded,
                                 superseded_by := Some newId\<rparr>))
      | _ \<Rightarrow> Inl NotFound)"

text \<open>
  Modelled from the spec: \<open>forget(id, hard)\<close> of the store, which is missing: hard removes
  the row, soft sets \<open>archived\<close> (archival changes the status only). The lifecycle
  manager's archival of a low-salience memory is the soft case.
\<close>

definition forget :: "vault \<Rightarrow> string \<Rightarrow> bool \<Rightarrow> store_error + vault" where
  "forget v i hard =
     (case v i of
        None \<Rightarrow> Inl NotFound
      | Some m \<Rightarrow> if hard then Inr (v(i := None)) else Inr (v(i \<mapsto> m\<lparr>status := Archived\<rparr>)))"

text \<open>
  Modelled from the spec: \<open>reinforce(id)\<close> of the store, which is missing: it increments
  the count and raises the salience, clamped to \<open>[0, 1]\<close>. The increment, which the spec
  leaves to the scoring constants, is a parameter.
\<close>

definition reinforce :: "vault \<Rightarrow> string \<Rightarrow> real \<Rightarrow> store_error + vault" where
  "reinforce v i increment =
     (case v i of
        None \<Rightarrow> Inl NotFound
      | Some m \<Rightarrow> Inr (v(i \<mapsto> m\<lparr>salience := max 0 (min 1 (salience m + max 0 increment)),
                                 reinforcement_count := reinforcement_count m + 1\<rparr>)))"

text \<open>
  Modelled from the spec: \<open>stamp(id, when)\<close> of the store, which is missing: it updates
  \<open>last_accessed_at\<close>.
\<close>

definition stamp :: "vault \<Rightarrow> string \<Rightarrow> int \<Rightarrow> store_error + vault" where
  "stamp v i when =
     (case v i of
        None \<Rightarrow> Inl NotFound
      | Some m \<Rightarrow> Inr (v(i \<mapsto> m\<lparr>last_accessed_at := when\<rparr>)))"

text \<open>
  Modelled from the spec: the decay pass of the lifecycle manager, which is missing: it
  reduces the salience by the configured step, clamped at 0.
\<close>

definition decay :: "vault \<Rightarrow> string \<Rightarrow> real \<Rightarrow> store_error + vault" where
  "decay v i step =
     (case v i of
        None \<Rightarrow> Inl NotFound
      | Some m \<Rightarrow> Inr (v(i \<mapsto> m\<lparr>salience := max 0 (salience m - max 0 step)\<rparr>)))"

text \<open>
  Modelled from the spec: the mutations of a vault (section 3, lifecycle: creation,
  reinforcement, supersession, access stamping, decay, archival, hard forget), each a
  single transaction; the store is missing.
\<close>

datatype vault_op =
  Insert Memory
| Supersede string string int
| Forget string bool
| Reinforce string real
| Stamp string int
| Decay string real

text \<open>
  Modelled from the spec: one transaction on the vault; the store is missing.
\<close>

fun apply_op :: "vault \<Rightarrow> vault_op \<Rightarrow> store_error + vault" where
  "apply_op v (Insert m) = insert_memory v m"
| "apply_op v (Supersede oldId newId atTime) = supersede v oldId newId atTime"
| "apply_op v (Forget i hard) = forget v i hard"
| "apply_op v (Reinforce i increment) = reinforce v i increment"
| "apply_op v (Stamp i when) = stamp v i when"
| "apply_op v (Decay i step) = decay v i step"

text \<open>
  Modelled from the spec: a history of transactions from a given vault; a transaction
  that fails leaves the vault as it was. The store is missing.
\<close>

fun run :: "vault \<Rightarrow> vault_op list \<Rightarrow> vault" where
  "run v [] = v"
| "run v (op # ops) = (case apply_op v op of Inl e \<Rightarrow> run v ops | Inr v' \<Rightarrow> run v' ops)"

text \<open>
  The invariant of section 3 for one memory \<open>m\<close> of a vault: \<open>m\<close> is superseded exactly
  when \<open>superseded_by\<close> is set, and then the successor is in the vault, is active, and
  \<open>m.valid_until\<close> is at most the successor's \<open>valid_from\<close>.
\<close>

definition supersessionOk :: "vault \<Rightarrow> Memory \<Rightarrow> bool" where
  "supersessionOk v m =
     ((status m = Superseded) = (superseded_by m \<noteq> None) \<and>
      (case superseded_by m of
         None \<Rightarrow> True
       | Some s \<Rightarrow>
           (case v s of
              None \<Rightarrow> False
            | Some n \<Rightarrow>
                status n = Active \<and>
                (case valid_until m of None \<Rightarrow> False | Some u \<Rightarrow> u \<le> valid_from n))))"

text \<open>
  Two conditions on a history, for stating what the operations maintain: every memory
  that the history inserts has a given property; and every \<open>supersede\<close> of the history
  is given an instant that is at most the \<open>valid_from\<close> of every memory the history
  inserts under the successor's id.
\<close>

definition insertedAll :: "(Memory \<Rightarrow> bool) \<Rightarrow> vault_op list \<Rightarrow> bool" where
  "insertedAll P ops = list_all (\<lambda>op. case op of Insert n \<Rightarrow> P n | _ \<Rightarrow> True) ops"

definition supersedesInTime :: "vault_op list \<Rightarrow> bool" where
  "supersedesInTime ops =
     list_all (\<lambda>op. case op of
                      Supersede oldId newId atTime \<Rightarrow>
                        insertedAll (\<lambda>n. mem_id n = newId \<longrightarrow> atTime \<le> valid_from n) ops
                    | _ \<Rightarrow> True) ops"

text \<open>
  Memories and histories used in the examples: a fact updated twice; a superseded fact
  archived; a supersession recorded at an instant after the successor's \<open>valid_from\<close>;
  a successor forgotten for good; and an outdated fact stored as the stress evaluation
  stores it, with the status \<open>superseded\<close> given by the caller.
\<close>

definition march1 :: Memory where
  "march1 = \<lparr>mem_id = ''d1'', content = ''The project deadline is March 1st'', status = Active,
     salience = 0.5, valid_from = 0, valid_until = None, last_accessed_at = 0,
     reinforcement_count = 0, superseded_by = None\<rparr>"

definition march15 :: Memory where
  "march15 = \<lparr>mem_id = ''d2'', content = ''The project deadline was moved to March 15th'',
     status = Active, salience = 0.5, valid_from = 7, valid_until = None, last_accessed_at = 7,
     reinforcement_count = 0, superseded_by = None\<rparr>"

definition april1 :: Memory where
  "april1 = \<lparr>mem_id = ''d3'',
     content = ''The project deadline is now April 1st after the scope change'',
     status = Active, salience = 0.5, valid_from = 13, valid_until = None, last_accessed_at = 13,
     reinforcement_count = 0, superseded_by = None\<rparr>"

definition outdated :: Memory where
  "outdated = remembered ''c1'' ''Atlas deadline is end of quarter.'' Superseded 0.3 0"

definition insertOps :: "vault_op list" where
  "insertOps = [Insert march1, Insert march15]"

definition deadlineOps :: "vault_op list" where
  "deadlineOps =
     [Insert march1, Insert march15, Supersede ''d1'' ''d2'' 7,
      Insert april1, Supersede ''d2'' ''d3'' 13]"

definition archiveOps :: "vault_op list" where
  "archiveOps = [Insert march1, Insert march15, Supersede ''d1'' ''d2'' 7, Forget ''d1'' False]"

definition lateOps :: "vault_op list" where
  "lateOps = [Insert march1, Insert march15, Supersede ''d1'' ''d2'' 9]"

definition forgottenOps :: "vault_op list" where
  "forgottenOps = [Insert march1, Insert march15, Supersede ''d1'' ''d2'' 7, Forget ''d2'' True]"

definition stressOps :: "vault_op list" where
  "stressOps = [Insert outdated]"
subsection \<open>The recall pipeline\<close>

text \<open>
  Modelled from the spec: the part of a recall request that the phases below read
  (\<open>limit\<close> and the optional point in time \<open>at\<close>); the recall pipeline is missing.
\<close>

record RecallQuery =
  rq_limit :: nat
  rq_at :: "int option"

text \<open>
  Modelled from the spec: the point-in-time filter of section 4.5.1,
  \<open>valid_from \<le> at < valid_until\<close>, with \<open>valid_until = \<infinity>\<close> for current truth; the recall
  pipeline is missing.
\<close>

definition validAt :: "int \<Rightarrow> Memory \<Rightarrow> bool" where
  "validAt t m = (valid_from m \<le> t \<and> (case valid_until m of None \<Rightarrow> True | Some u \<Rightarrow> t < u))"

text \<open>
  Modelled from the spec: the union of candidates deduplicated by id (section 4.5.2),
  keeping the first occurrence; the recall pipeline is missing.
\<close>

fun uniqueById :: "string list \<Rightarrow> Memory list \<Rightarrow> Memory list" where
  "uniqueById seen [] = []"
| "uniqueById seen (m # ms) =
     (if mem_id m \<in> set seen then uniqueById seen ms
      else m # uniqueById (mem_id m # seen) ms)"

text \<open>
  Modelled from the spec: the candidate set of a recall (sections 4.5.1 to 4.5.3). The
  seeds come in priority order from the aggregation, vector, entity and topic retrieval,
  and the surfaced memories from spreading activation; these components are missing and
  their results are parameters. Archived memories are excluded, at most
  \<open>limit \<times> seedExpansionFactor\<close> seeds are kept, and with a point in time only the
  memories valid at it remain.
\<close>

definition candidates :: "RecallQuery \<Rightarrow> nat \<Rightarrow> Memory list \<Rightarrow> Memory list \<Rightarrow> Memory list" where
  "candidates q seedExpansionFactor seeds surfaced =
     (let seeded = take (rq_limit q * seedExpansionFactor)
                     (uniqueById [] (filter (\<lambda>m. status m \<noteq> Archived) seeds));
          cands = uniqueById [] (seeded @ filter (\<lambda>m. status m \<noteq> Archived) surfaced)
      in case rq_at q of None \<Rightarrow> cands | Some t \<Rightarrow> filter (validAt t) cands)"

text \<open>
  Modelled from the spec: the order of section 4.5.4 on scored candidates: higher
  score, then higher salience, then more recent \<open>valid_from\<close>, then lexicographic id.
  The score itself (embeddings, entity and topic overlap, spread, recency) is a
  parameter; the recall pipeline is missing.
\<close>

definition ranksBefore :: "(Memory \<Rightarrow> real) \<Rightarrow> Memory \<Rightarrow> Memory \<Rightarrow> bool" where
  "ranksBefore score a b =
     (score a > score b \<or>
      (score a = score b \<and>
       (salience a > salience b \<or>
        (salience a = salience b \<and>
         (valid_from a > valid_from b \<or>
          (valid_from a = valid_from b \<and> mem_id a < mem_id b))))))"

text \<open>
  Modelled from the spec: ranking the candidates in that order; the recall pipeline is
  missing.
\<close>

fun insertRanked :: "(Memory \<Rightarrow> real) \<Rightarrow> Memory \<Rightarrow> Memory list \<Rightarrow> Memory list" where
  "insertRanked score x [] = [x]"
| "insertRanked score x (y # ys) =
     (if ranksBefore score y x then y # insertRanked score x ys else x # y # ys)"

text \<open>
  Modelled from the spec: the ranked candidate list of section 4.5.4; the recall pipeline
  is missing.
\<close>

definition rank :: "(Memory \<Rightarrow> real) \<Rightarrow> Memory list \<Rightarrow> Memory list" where
  "rank score xs = foldr (insertRanked score) xs []"

text \<open>
  Modelled from the spec: the candidate with the latest \<open>valid_from\<close> of a non-empty
  list (the first such in list order); the recall pipeline is missing.
\<close>

fun latest :: "Memory \<Rightarrow> Memory list \<Rightarrow> Memory" where
  "latest best [] = best"
| "latest best (m # ms) = latest (if valid_from m > valid_from best then m else best) ms"

text \<open>
  Modelled from the spec: within a group, retain the candidate with the latest
  \<open>valid_from\<close> whose status is active; the others collapse into the dedup set attached
  to it (section 4.5.5). That sentence does not say what a group without an active
  member retains, but the scenarios of section 8 require such a group to return one of
  its members: aggregation routing (scenario 2) returns the pending memories, and
  point-in-time recall (scenario 5) returns the superseded \<open>uses framework X\<close>. A
  group without an active member therefore retains a member too, here its latest. The
  recall pipeline is missing.
\<close>

definition resolveGroup :: "Memory list \<Rightarrow> Memory \<times> Memory list" where
  "resolveGroup g =
     (let actives = filter (\<lambda>m. status m = Active) g;
          pool = (if actives = [] then g else actives);
          retained = latest (hd pool) (tl pool)
      in (retained, remove1 retained g))"

text \<open>
  Modelled from the spec: grouping the candidates by their key (primary entity and topic
  signature, a parameter) and resolving each group; the groups come in the order of their
  best-ranked member. The recall pipeline is missing.
\<close>

function dedup :: "(Memory \<Rightarrow> 'k) \<Rightarrow> Memory list \<Rightarrow> (Memory \<times> Memory list) list" where
  "dedup key [] = []"
| "dedup key (m # ms) =
     resolveGroup (m # filter (\<lambda>x. key x = key m) ms) #
     dedup key (filter (\<lambda>x. key x \<noteq> key m) ms)"
  by pat_completeness auto
termination
  by (relation "measure (\<lambda>(key, ms). length ms)") (auto simp add: less_Suc_eq_le)

text \<open>
  Modelled from the spec: the groups of a recall, after scoring and dedup; the recall
  pipeline is missing.
\<close>

definition recallGroups :: "RecallQuery \<Rightarrow> nat \<Rightarrow> Memory list \<Rightarrow> Memory list \<Rightarrow> (Memory \<Rightarrow> real) \<Rightarrow> (Memory \<Rightarrow> 'k) \<Rightarrow> (Memory \<times> Memory list) list" where
  "recallGroups q seedExpansionFactor seeds surfaced score key =
     dedup key (rank score (candidates q seedExpansionFactor seeds surfaced))"

text \<open>
  Modelled from the spec: \<open>recall\<close>, which returns the top \<open>limit\<close> of the retained
  candidates (section 4.5.6; the stamping of the returned ids is left out). The recall
  pipeline is missing.
\<close>

definition recall :: "RecallQuery \<Rightarrow> nat \<Rightarrow> Memory list \<Rightarrow> Memory list \<Rightarrow> (Memory \<Rightarrow> real) \<Rightarrow> (Memory \<Rightarrow> 'k) \<Rightarrow> Memory list" where
  "recall q seedExpansionFactor seeds surfaced score key =
     take (rq_limit q) (map fst (recallGroups q seedExpansionFactor seeds surfaced score key))"

text \<open>Memories and a query used in the examples.\<close>

definition frameworkX :: Memory where
  "frameworkX = \<lparr>mem_id = ''x'', content = ''uses framework X'', status = Superseded,
     salience = 0.5, valid_from = 0, valid_until = Some 10, last_accessed_at = 0,
     reinforcement_count = 0, superseded_by = Some ''y''\<rparr>"

definition frameworkY :: Memory where
  "frameworkY = \<lparr>mem_id = ''y'', content = ''uses framework Y'', status = Active,
     salience = 0.5, valid_from = 10, valid_until = None, last_accessed_at = 10,
     reinforcement_count = 0, superseded_by = None\<rparr>"

definition reviewDue :: Memory where
  "reviewDue = \<lparr>mem_id = ''p1'', content = ''Send the quarterly review by Friday'',
     status = Pending, salience = 0.5, valid_from = 3, valid_until = None, last_accessed_at = 3,
     reinforcement_count = 0, superseded_by = None\<rparr>"

definition constantScore :: "Memory \<Rightarrow> real" where
  "constantScore m = 1"

definition sameTopic :: "Memory \<Rightarrow> string" where
  "sameTopic m = ''topic''"

definition atFive :: RecallQuery where
  "atFive = \<lparr>rq_limit = 5, rq_at = Some 5\<rparr>"

definition atEleven :: RecallQuery where
  "atEleven = \<lparr>rq_limit = 5, rq_at = Some 11\<rparr>"

definition current :: RecallQuery where
  "current = \<lparr>rq_limit = 5, rq_at = None\<rparr>"

section \<open>Properties of chunkFile\<close>

lemma chunkLoop_length:
  "part \<le> 50 \<Longrightarrow>
   length (chunkLoop src maxChars overlap start part chunks) \<le> length chunks + nat (51 - part)"
proof (induction src maxChars overlap start part chunks rule: chunkLoop.induct)
  case (1 src maxChars overlap start part chunks)
  show ?case
  proof (cases "start < int (length src)")
    case False
    then show ?thesis by (subst chunkLoop.simps) simp
  next
    case True
    define endIdx where "endIdx = min (start + maxChars) (int (length src))"
    define breakPoint where "breakPoint =
      (if endIdx < int (length src) then
         (let lastNewline = js_lastIndexOf src newline endIdx
          in if real_of_int lastNewline > real_of_int start + real_of_int maxChars / 2
             then lastNewline + 1 else endIdx)
       else endIdx)"
    define chunks' where
      "chunks' = chunks @ [\<lparr>ch_content = js_slice src start breakPoint, ch_part = part\<rparr>]"
    define start' where "start' = (if breakPoint - overlap < 0 then 0 else breakPoint - overlap)"
    define part' where "part' = part + 1"
    have len: "length chunks' = Suc (length chunks)"
      by (simp add: chunks'_def)
    have unfold: "chunkLoop src maxChars overlap start part chunks =
        (if part' > 50 then chunks' else chunkLoop src maxChars overlap start' part' chunks')"
      using True
      by (subst chunkLoop.simps)
         (simp only: Let_def endIdx_def breakPoint_def chunks'_def start'_def part'_def if_True)
    show ?thesis
    proof (cases "part' > 50")
      case True
      with unfold len "1.prems" show ?thesis by simp
    next
      case False
      then have "part' \<le> 50" by simp
      from "1.IH"[OF True endIdx_def breakPoint_def chunks'_def start'_def part'_def False this]
      have "length (chunkLoop src maxChars overlap start' part' chunks')
              \<le> length chunks' + nat (51 - part')" .
      with unfold False len show ?thesis by (simp add: part'_def)
    qed
  qed
qed

text \<open>
  C9. \<open>chunkFile\<close> is a total function (its loop is accepted with a termination proof
  for every content, \<open>maxChars\<close> and \<open>overlap\<close>), it returns at most 50 chunks, and a
  file whose content is no longer than \<open>maxChars\<close> gives exactly one chunk: the whole
  content, as part 1.
\<close>

theorem chunkFile_bounded:
  "length (chunkFile file maxChars overlap) \<le> 50 \<and>
   (int (length (cf_content file)) \<le> maxChars \<longrightarrow>
      chunkFile file maxChars overlap = [\<lparr>ch_content = cf_content file, ch_part = 1\<rparr>])"
  using chunkLoop_length[of 1 "cf_content file" maxChars overlap 0 "[]"]
  by (simp add: chunkFile_def)

theorem chunkFile_bounded_witness:
  "int (length (cf_content \<lparr>cf_path = ''a.ts'', cf_content = ''const a = 1;'', cf_language = ''ts'',
        cf_lines = 1, cf_size = 12\<rparr>)) \<le> 2000 \<and>
   length (chunkFile \<lparr>cf_path = ''a.ts'', cf_content = ''const a = 1;'', cf_language = ''ts'',
        cf_lines = 1, cf_size = 12\<rparr> 2000 200) \<le> 50 \<and>
   chunkFile \<lparr>cf_path = ''a.ts'', cf_content = ''const a = 1;'', cf_language = ''ts'',
        cf_lines = 1, cf_size = 12\<rparr> 2000 200 = [\<lparr>ch_content = ''const a = 1;'', ch_part = 1\<rparr>]"
  using chunkFile_bounded[of "\<lparr>cf_path = ''a.ts'', cf_content = ''const a = 1;'', cf_language = ''ts'',
        cf_lines = 1, cf_size = 12\<rparr>" 2000 200]
  by simp

text \<open>
  Two runs of the loop on a nine-character file. Without overlap the file is cut after
  its newline and the loop leaves through its condition. With an overlap of one
  character the last chunk ends at the end of the file, \<open>start\<close> is set back before
  the end, and the loop repeats the last character until the safety limit stops it.
\<close>

lemma chunkFile_example_no_overlap:
  "chunkFile \<lparr>cf_path = ''a.ts'', cf_content = ''abcd'' @ [newline] @ ''efgh'', cf_language = ''ts'',
        cf_lines = 2, cf_size = 9\<rparr> 6 0 =
     [\<lparr>ch_content = ''abcd'' @ [newline], ch_part = 1\<rparr>, \<lparr>ch_content = ''efgh'', ch_part = 2\<rparr>]"
  by code_simp

lemma chunkFile_example_overlap:
  "length (chunkFile \<lparr>cf_path = ''a.ts'', cf_content = ''abcd'' @ [newline] @ ''efgh'', cf_language = ''ts'',
        cf_lines = 2, cf_size = 9\<rparr> 6 1) = 50"
  by code_simp

section \<open>Properties of cosineSim and vectorSearchMarkdown\<close>

lemma cosine_fold:
  "n \<le> length a \<Longrightarrow> n \<le> length b \<Longrightarrow>
   fold (cosineStep a b) [0..<n] (Some 0, Some 0, Some 0) =
     (Some (\<Sum>i = 0..<n. a ! i * b ! i), Some (\<Sum>i = 0..<n. a ! i * a ! i), Some (\<Sum>i = 0..<n. b ! i * b ! i))"
proof (induction n)
  case 0
  then show ?case by simp
next
  case (Suc n)
  then have lt: "n < length a" "n < length b" by simp_all
  have "fold (cosineStep a b) [0..<Suc n] (Some 0, Some 0, Some 0) =
      cosineStep a b n (fold (cosineStep a b) [0..<n] (Some 0, Some 0, Some 0))"
    by simp
  also have "\<dots> = cosineStep a b n
      (Some (\<Sum>i = 0..<n. a ! i * b ! i), Some (\<Sum>i = 0..<n. a ! i * a ! i), Some (\<Sum>i = 0..<n. b ! i * b ! i))"
    using Suc by simp
  also have "\<dots> = (Some (\<Sum>i = 0..<Suc n. a ! i * b ! i), Some (\<Sum>i = 0..<Suc n. a ! i * a ! i),
      Some (\<Sum>i = 0..<Suc n. b ! i * b ! i))"
    unfolding cosineStep_def js_at_def num_add_def num_mul_def using lt
    apply (simp only: if_True prod.case option.case)
    apply simp
    done
  finally show ?case .
qed

lemma sum_squares_list: "(\<Sum>x\<leftarrow>a. x * x) = (\<Sum>i = 0..<length a. a ! i * (a ! i :: real))"
proof -
  have "(\<Sum>x\<leftarrow>a. x * x) = (\<Sum>i = 0..<length (map (\<lambda>x. x * x) a). map (\<lambda>x. x * x) a ! i)"
    by (rule sum_list_sum_nth)
  also have "\<dots> = (\<Sum>i = 0..<length a. a ! i * a ! i)"
    by (rule sum.cong) simp_all
  finally show ?thesis .
qed

lemma cauchy_schwarz_sum:
  fixes f g :: "nat \<Rightarrow> real"
  shows "(\<Sum>i = 0..<n. f i * g i)\<^sup>2 \<le> (\<Sum>i = 0..<n. f i * f i) * (\<Sum>i = 0..<n. g i * g i)"
proof -
  define A where "A = (\<Sum>i = 0..<n. f i * f i)"
  define B where "B = (\<Sum>i = 0..<n. g i * g i)"
  define D where "D = (\<Sum>i = 0..<n. f i * g i)"
  have B0: "0 \<le> B" unfolding B_def by (rule sum_nonneg) simp
  have "0 \<le> (\<Sum>i = 0..<n. (B * f i - D * g i)\<^sup>2)"
    by (rule sum_nonneg) simp
  also have "(\<Sum>i = 0..<n. (B * f i - D * g i)\<^sup>2) =
      (\<Sum>i = 0..<n. B * B * (f i * f i) - 2 * B * D * (f i * g i) + D * D * (g i * g i))"
    by (rule sum.cong) (simp_all add: power2_eq_square algebra_simps)
  also have "\<dots> = B * B * A - 2 * B * D * D + D * D * B"
    by (simp add: sum.distrib sum_subtractf sum_distrib_left A_def B_def D_def)
  also have "\<dots> = B * (A * B - D\<^sup>2)"
    by (simp add: power2_eq_square algebra_simps)
  finally have nonneg: "0 \<le> B * (A * B - D\<^sup>2)" .
  show ?thesis
  proof (cases "B = 0")
    case True
    then have "\<forall>i\<in>{0..<n}. g i * g i = 0"
      unfolding B_def by (subst (asm) sum_nonneg_eq_0_iff) auto
    then have "D = 0" unfolding D_def by (intro sum.neutral) auto
    then show ?thesis using True by (simp add: A_def B_def D_def)
  next
    case False
    with B0 have "0 < B" by simp
    with nonneg have "0 \<le> A * B - D\<^sup>2"
      by (simp add: zero_le_mult_iff)
    then show ?thesis by (simp add: A_def B_def D_def)
  qed
qed


lemma cosineSim_eq:
  assumes "length a \<le> length b"
  shows "cosineSim a b =
    (let dot = (\<Sum>i = 0..<length a. a ! i * b ! i);
         normA = (\<Sum>i = 0..<length a. a ! i * a ! i);
         normB = (\<Sum>i = 0..<length a. b ! i * b ! i)
     in if sqrt normA * sqrt normB = 0 then None else Some (dot / (sqrt normA * sqrt normB)))"
  unfolding cosineSim_def cosine_fold[OF order_refl assms] by (simp add: Let_def)

lemma euclidNorm_sq: "euclidNorm a = sqrt (\<Sum>i = 0..<length a. a ! i * a ! i)"
  by (simp add: euclidNorm_def sum_squares_list)

lemma sum_sq_nonneg: "0 \<le> (\<Sum>i = 0..<n. f i * (f i :: real))"
  by (rule sum_nonneg) simp

lemma insertBy_mset: "mset (insertBy cmp x ys) = add_mset x (mset ys)"
  by (induction ys) simp_all

lemma js_sort_mset: "mset (js_sort f xs) = mset xs"
  by (induction xs) (simp_all add: js_sort_def insertBy_mset)

lemma insertBy_set: "set (insertBy cmp x ys) = insert x (set ys)"
  by (induction ys) auto

lemma js_sort_set: "set (js_sort f xs) = set xs"
  by (rule mset_eq_setD) (rule js_sort_mset)

lemma insertBy_sorted:
  assumes "\<forall>u\<in>insert x (set ys). \<forall>v\<in>insert x (set ys). (cmp u v \<le> 0) = (key v \<le> (key u :: real))"
    and "sorted_wrt (\<lambda>a b. key b \<le> key a) ys"
  shows "sorted_wrt (\<lambda>a b. key b \<le> key a) (insertBy cmp x ys)"
  using assms
proof (induction ys)
  case Nil
  then show ?case by simp
next
  case (Cons y ys)
  show ?case
  proof (cases "cmp x y \<le> 0")
    case True
    with Cons.prems have "key y \<le> key x" by simp
    moreover from Cons.prems(2) have "\<forall>z\<in>set ys. key z \<le> key y" by simp
    ultimately have "\<forall>z\<in>set (y # ys). key z \<le> key x" by fastforce
    with True Cons.prems(2) show ?thesis by simp
  next
    case False
    with Cons.prems(1) have "\<not> key y \<le> key x" by simp
    then have xy: "key x \<le> key y" by simp
    have "sorted_wrt (\<lambda>a b. key b \<le> key a) (insertBy cmp x ys)"
      using Cons.IH Cons.prems by simp
    moreover have "\<forall>z\<in>set (insertBy cmp x ys). key z \<le> key y"
      using xy Cons.prems(2) by (simp add: insertBy_set)
    ultimately show ?thesis using False by simp
  qed
qed

lemma js_sort_sorted:
  assumes "\<forall>u\<in>set xs. \<forall>v\<in>set xs. (js_cmp f u v \<le> 0) = (key v \<le> (key u :: real))"
  shows "sorted_wrt (\<lambda>a b. key b \<le> key a) (js_sort f xs)"
  using assms
proof (induction xs)
  case Nil
  then show ?case by (simp add: js_sort_def)
next
  case (Cons x xs)
  have eq: "js_sort f (x # xs) = insertBy (js_cmp f) x (js_sort f xs)"
    by (simp add: js_sort_def)
  have "sorted_wrt (\<lambda>a b. key b \<le> key a) (js_sort f xs)"
    using Cons by simp
  moreover have "\<forall>u\<in>insert x (set (js_sort f xs)). \<forall>v\<in>insert x (set (js_sort f xs)).
      (js_cmp f u v \<le> 0) = (key v \<le> key u)"
    using Cons.prems by (simp add: js_sort_set)
  ultimately show ?case unfolding eq by (rule insertBy_sorted[rotated])
qed


lemma upt_0_3: "[0..<3] = [0, 1, 2]"
  by code_simp

lemma upt_0_2: "[0..<2] = [0, 1]"
  by code_simp

lemma cosineSim_orthogonal: "cosineSim [1,0] [0,1] = Some 0"
  by (simp add: cosineSim_def upt_0_2 cosineStep_def js_at_def num_add_def num_mul_def)

lemma cosineSim_zero_vector: "cosineSim [1,0] [0,0] = None"
  by (simp add: cosineSim_def upt_0_2 cosineStep_def js_at_def num_add_def num_mul_def)

lemma cosineSim_same: "cosineSim [1,0] [1,0] = Some 1"
  by (simp add: cosineSim_def upt_0_2 cosineStep_def js_at_def num_add_def num_mul_def)

lemma dotProduct_nth:
  assumes "length a = length b"
  shows "dotProduct a b = (\<Sum>i = 0..<length a. a ! i * b ! i)"
proof -
  have "dotProduct a b =
      (\<Sum>i = 0..<length (map (\<lambda>(x, y). x * y) (zip a b)). map (\<lambda>(x, y). x * y) (zip a b) ! i)"
    unfolding dotProduct_def by (rule sum_list_sum_nth)
  also have "\<dots> = (\<Sum>i = 0..<length a. a ! i * b ! i)"
    using assms by (intro sum.cong) simp_all
  finally show ?thesis .
qed

lemma cosineSim_cosine:
  assumes len: "length a = length b"
    and na: "euclidNorm a \<noteq> 0"
    and nb: "euclidNorm b \<noteq> 0"
  shows "cosineSim a b = Some (cosine a b)"
proof -
  have "cosineSim a b =
      (if euclidNorm a * euclidNorm b = 0 then None
       else Some (dotProduct a b / (euclidNorm a * euclidNorm b)))"
    using len cosineSim_eq[of a b]
    by (simp add: Let_def dotProduct_nth euclidNorm_sq)
  with na nb show ?thesis by (simp add: cosine_def)
qed

lemma js_slice_take: "0 \<le> limit \<Longrightarrow> js_slice xs 0 limit = take (nat limit) xs"
  by (simp add: js_slice_def Let_def min_def)

lemma compareScore_Some:
  "sc_score u = Some x \<Longrightarrow> sc_score v = Some y \<Longrightarrow> js_cmp compareScore u v = y - x"
  by (simp add: js_cmp_def compareScore_def num_sub_def)


lemma cosineSim_zero_denominator:
  fixes a b :: "real list"
  assumes "sqrt (\<Sum>i = 0..<n. a ! i * a ! i) * sqrt (\<Sum>i = 0..<n. b ! i * b ! i) = 0"
  shows "(\<Sum>i = 0..<n. a ! i * b ! i) = 0"
proof -
  from assms have "(\<Sum>i = 0..<n. a ! i * a ! i) * (\<Sum>i = 0..<n. b ! i * b ! i) = 0"
    by auto
  with cauchy_schwarz_sum[of "\<lambda>i. a ! i" "\<lambda>i. b ! i" n]
  have "(\<Sum>i = 0..<n. a ! i * b ! i)\<^sup>2 \<le> 0" by simp
  then show ?thesis by simp
qed

text \<open>
  C10. For vectors \<open>a\<close> and \<open>b\<close> of the same length with nonzero Euclidean norm,
  over exact real arithmetic: \<open>cosineSim a b\<close> and \<open>cosineSim b a\<close> are the same number,
  that number lies between \<open>-1\<close> and \<open>1\<close>, and \<open>cosineSim a a\<close> is \<open>1\<close>.
\<close>

theorem cosineSim_symmetric_bounded:
  assumes len: "length a = length b"
    and na: "euclidNorm a \<noteq> 0"
    and nb: "euclidNorm b \<noteq> 0"
  shows "(\<exists>s. cosineSim a b = Some s \<and> cosineSim b a = Some s \<and> - 1 \<le> s \<and> s \<le> 1) \<and>
         cosineSim a a = Some 1"
proof -
  define n where "n = length a"
  define A where "A = (\<Sum>i = 0..<n. a ! i * a ! i)"
  define B where "B = (\<Sum>i = 0..<n. b ! i * b ! i)"
  define D where "D = (\<Sum>i = 0..<n. a ! i * b ! i)"
  have D': "(\<Sum>i = 0..<n. b ! i * a ! i) = D"
    unfolding D_def by (rule sum.cong) (simp_all add: mult.commute)
  have A0: "0 \<le> A" and B0: "0 \<le> B"
    unfolding A_def B_def by (rule sum_sq_nonneg)+
  from na have "sqrt A \<noteq> 0" by (simp add: euclidNorm_sq A_def n_def)
  with A0 have sA: "0 < sqrt A" by simp
  from nb len have "sqrt B \<noteq> 0" by (simp add: euclidNorm_sq B_def n_def)
  with B0 have sB: "0 < sqrt B" by simp
  from sA sB have pos: "0 < sqrt A * sqrt B" by simp
  have "cosineSim a b = (if sqrt A * sqrt B = 0 then None else Some (D / (sqrt A * sqrt B)))"
    unfolding A_def B_def D_def n_def using cosineSim_eq[of a b] len by (simp add: Let_def)
  with sA sB have ab: "cosineSim a b = Some (D / (sqrt A * sqrt B))" by simp
  have "cosineSim b a = (if sqrt B * sqrt A = 0 then None else Some (D / (sqrt B * sqrt A)))"
    unfolding A_def B_def D'[symmetric] n_def using cosineSim_eq[of b a] len by (simp add: Let_def)
  with sA sB have ba: "cosineSim b a = Some (D / (sqrt A * sqrt B))" by (simp add: mult.commute)
  have "D\<^sup>2 \<le> A * B"
    unfolding A_def B_def D_def by (rule cauchy_schwarz_sum)
  then have "sqrt (D\<^sup>2) \<le> sqrt (A * B)" by (rule real_sqrt_le_mono)
  then have abs: "\<bar>D\<bar> \<le> sqrt A * sqrt B" by (simp add: real_sqrt_mult)
  then have "- (sqrt A * sqrt B) \<le> D" and "D \<le> sqrt A * sqrt B" by linarith+
  with pos have "- 1 \<le> D / (sqrt A * sqrt B)" and "D / (sqrt A * sqrt B) \<le> 1"
    by (simp_all add: pos_le_divide_eq pos_divide_le_eq)
  with ab ba have range: "\<exists>s. cosineSim a b = Some s \<and> cosineSim b a = Some s \<and> - 1 \<le> s \<and> s \<le> 1"
    by blast
  have "cosineSim a a = (if sqrt A * sqrt A = 0 then None else Some (A / (sqrt A * sqrt A)))"
    unfolding A_def n_def using cosineSim_eq[of a a] by (simp add: Let_def)
  moreover have "sqrt A * sqrt A = A" using A0 by simp
  ultimately have "cosineSim a a = Some 1"
    using sA by simp
  with range show ?thesis by blast
qed

theorem cosineSim_symmetric_bounded_witness:
  "length [3, 4 :: real] = length [4, 3 :: real] \<and> euclidNorm [3, 4] \<noteq> 0 \<and> euclidNorm [4, 3] \<noteq> 0 \<and>
   (\<exists>s. cosineSim [3, 4] [4, 3] = Some s \<and> cosineSim [4, 3] [3, 4] = Some s \<and> - 1 \<le> s \<and> s \<le> 1) \<and>
   cosineSim [3, 4] [3, 4] = Some 1"
proof -
  have n1: "euclidNorm [3, 4] \<noteq> 0" and n2: "euclidNorm [4, 3] \<noteq> 0"
    by (simp_all add: euclidNorm_def)
  have len: "length [3, 4 :: real] = length [4, 3 :: real]" by simp
  from cosineSim_symmetric_bounded[OF len n1 n2] len n1 n2 show ?thesis by blast
qed

text \<open>
  C1 (as amended). Let the embedding list be as long as the chunk list, every embedding
  have the dimension of the query embedding, the query embedding and every chunk
  embedding have nonzero Euclidean norm, and \<open>limit\<close> be a non-negative integer. Then
  \<open>vectorSearchMarkdown\<close> returns at most \<open>limit\<close> chunks, and they are the first
  \<open>limit\<close> entries of a ranking of all chunks by descending cosine similarity to the
  query embedding: the list \<open>ranked\<close> is a rearrangement of the chunks paired with their
  cosine similarities, it is in descending order of similarity, and the result is its
  prefix of length \<open>limit\<close>. Being sorted, every chunk left out has a similarity no
  higher than every chunk returned.
\<close>

theorem vectorSearchMarkdown_top_k:
  assumes len: "length embeddings = length chunks"
    and dims: "\<forall>e\<in>set embeddings. length e = length queryEmb"
    and nq: "euclidNorm queryEmb \<noteq> 0"
    and ne: "\<forall>e\<in>set embeddings. euclidNorm e \<noteq> 0"
    and lim: "0 \<le> limit"
  shows "\<exists>ranked result.
           vectorSearchMarkdown queryEmb chunks embeddings limit = Inr result \<and>
           int (length result) \<le> limit \<and>
           result = map fst (take (nat limit) ranked) \<and>
           mset ranked = mset (zip chunks (map (cosine queryEmb) embeddings)) \<and>
           sorted_wrt (\<lambda>a b. snd b \<le> snd a) ranked"
proof -
  define scored where "scored = map (\<lambda>i. \<lparr>sc_chunk = chunks ! i,
      sc_score = (if i < length embeddings then cosineSim queryEmb (embeddings ! i) else None)\<rparr>)
      [0..<length chunks]"
  define pair where "pair = (\<lambda>s :: scored. (sc_chunk s, the (sc_score s)))"
  define sorted where "sorted = js_sort compareScore scored"
  define ranked where "ranked = map pair sorted"
  define result where "result = map fst (take (nat limit) ranked)"
  have score: "sc_score (scored ! i) = Some (cosine queryEmb (embeddings ! i))" if "i < length chunks" for i
  proof -
    from that len have "embeddings ! i \<in> set embeddings" by simp
    with dims nq ne have "cosineSim queryEmb (embeddings ! i) = Some (cosine queryEmb (embeddings ! i))"
      by (intro cosineSim_cosine) simp_all
    with that len show ?thesis by (simp add: scored_def)
  qed
  have scored_pairs: "map pair scored = zip chunks (map (cosine queryEmb) embeddings)"
  proof (rule nth_equalityI)
    show "length (map pair scored) = length (zip chunks (map (cosine queryEmb) embeddings))"
      using len by (simp add: scored_def)
  next
    fix i assume "i < length (map pair scored)"
    then have i: "i < length chunks" by (simp add: scored_def)
    with score[OF i] len show "map pair scored ! i = zip chunks (map (cosine queryEmb) embeddings) ! i"
      by (simp add: pair_def scored_def)
  qed
  have all_some: "\<exists>x. sc_score s = Some x" if "s \<in> set scored" for s
  proof -
    from that obtain i where "i < length scored" "s = scored ! i"
      by (auto simp add: in_set_conv_nth)
    then show ?thesis using score[of i] by (simp add: scored_def)
  qed
  have "vectorSearchMarkdown queryEmb chunks embeddings limit = Inr (map sc_chunk (js_slice sorted 0 limit))"
    using len by (simp add: vectorSearchMarkdown_def Let_def sorted_def scored_def)
  also have "map sc_chunk (js_slice sorted 0 limit) = result"
    using lim by (simp add: js_slice_take result_def ranked_def take_map pair_def comp_def)
  finally have res: "vectorSearchMarkdown queryEmb chunks embeddings limit = Inr result" .
  have bound: "int (length result) \<le> limit"
    using lim by (simp add: result_def)
  have "mset ranked = image_mset pair (mset sorted)"
    by (simp add: ranked_def)
  also have "\<dots> = mset (map pair scored)"
    by (simp add: sorted_def js_sort_mset)
  finally have perm: "mset ranked = mset (zip chunks (map (cosine queryEmb) embeddings))"
    by (simp only: scored_pairs)
  have "\<forall>u\<in>set scored. \<forall>v\<in>set scored.
      (js_cmp compareScore u v \<le> 0) = (the (sc_score v) \<le> the (sc_score u))"
  proof (intro ballI)
    fix u v assume "u \<in> set scored" "v \<in> set scored"
    then obtain x y where "sc_score u = Some x" "sc_score v = Some y"
      using all_some by blast
    then show "(js_cmp compareScore u v \<le> 0) = (the (sc_score v) \<le> the (sc_score u))"
      by (simp add: compareScore_Some)
  qed
  then have "sorted_wrt (\<lambda>a b. the (sc_score b) \<le> the (sc_score a)) sorted"
    unfolding sorted_def by (rule js_sort_sorted)
  then have "sorted_wrt (\<lambda>a b. snd b \<le> snd a) ranked"
    by (simp add: ranked_def sorted_wrt_map pair_def)
  with res bound perm show ?thesis
    unfolding result_def by blast
qed

theorem vectorSearchMarkdown_top_k_witness:
  "length [[0, 1], [1, 0 :: real]] = length [''c0'', ''c1''] \<and>
   length [0, 1 :: real] = length [1, 0 :: real] \<and>
   length [1, 0 :: real] = length [1, 0 :: real] \<and>
   euclidNorm [1, 0] \<noteq> 0 \<and> euclidNorm [0, 1] \<noteq> 0 \<and>
   (0 :: int) \<le> 1 \<and>
   (\<exists>ranked result.
      vectorSearchMarkdown [1, 0] [''c0'', ''c1''] [[0, 1], [1, 0]] 1 = Inr result \<and>
      int (length result) \<le> 1 \<and>
      result = map fst (take (nat 1) ranked) \<and>
      mset ranked = mset (zip [''c0'', ''c1''] (map (cosine [1, 0]) [[0, 1], [1, 0]])) \<and>
      sorted_wrt (\<lambda>a b. snd b \<le> snd a) ranked)"
proof -
  have len: "length [[0, 1], [1, 0 :: real]] = length [''c0'', ''c1'']" by simp
  have dims: "\<forall>e\<in>set [[0, 1], [1, 0 :: real]]. length e = length [1, 0 :: real]" by simp
  have n1: "euclidNorm [1, 0] \<noteq> 0" and n2: "euclidNorm [0, 1] \<noteq> 0"
    by (simp_all add: euclidNorm_def)
  then have ne: "\<forall>e\<in>set [[0, 1], [1, 0 :: real]]. euclidNorm e \<noteq> 0" by simp
  have lim: "(0 :: int) \<le> 1" by simp
  have hyps: "length [0, 1 :: real] = length [1, 0 :: real] \<and> length [1, 0 :: real] = length [1, 0 :: real]"
    by simp
  from vectorSearchMarkdown_top_k[OF len dims n1 ne lim] len hyps n1 n2 lim
  show ?thesis by blast
qed

text \<open>
  The search on the witness input: the chunk whose embedding equals the query comes out.
\<close>

lemma vectorSearchMarkdown_example:
  "vectorSearchMarkdown [1, 0] [''c0'', ''c1''] [[0, 1], [1, 0]] 1 = Inr [''c1'']"
  by (simp add: vectorSearchMarkdown_def upt_0_2 cosineSim_orthogonal cosineSim_same
      js_sort_def js_cmp_def compareScore_def num_sub_def js_slice_def)

text \<open>
  C1 as stated, for every list of chunk embeddings and every \<open>limit\<close>, fails twice.
  With the query \<open>[1, 0]\<close> and the chunk embeddings \<open>[0, 1]\<close>, \<open>[0, 0]\<close>, \<open>[1, 0]\<close> the
  similarities are \<open>0\<close>, \<open>NaN\<close> and \<open>1\<close>; every comparison with the \<open>NaN\<close> score
  gives \<open>0\<close>, the order stays as it is, and with \<open>limit = 1\<close> the chunk of similarity
  \<open>0\<close> is returned although another chunk has similarity \<open>1\<close>. And with
  \<open>limit = -1\<close>, \<open>slice(0, -1)\<close> drops the last of two ranked chunks and one chunk is
  returned, which is more than \<open>limit\<close>.
\<close>

theorem vectorSearchMarkdown_counterexample:
  "vectorSearchMarkdown [1, 0] [''c0'', ''c1'', ''c2''] [[0, 1], [0, 0], [1, 0]] 1 = Inr [''c0''] \<and>
   cosineSim [1, 0] [0, 1] = Some 0 \<and>
   cosineSim [1, 0] [0, 0] = None \<and>
   cosineSim [1, 0] [1, 0] = Some 1 \<and>
   vectorSearchMarkdown [1, 0] [''c0'', ''c1''] [[0, 1], [1, 0]] (- 1) = Inr [''c1''] \<and>
   \<not> int (length [''c1'']) \<le> - 1"
proof -
  have "vectorSearchMarkdown [1, 0] [''c0'', ''c1'', ''c2''] [[0, 1], [0, 0], [1, 0]] 1 = Inr [''c0'']"
    by (simp add: vectorSearchMarkdown_def upt_0_3 cosineSim_orthogonal cosineSim_zero_vector
        cosineSim_same js_sort_def js_cmp_def compareScore_def num_sub_def js_slice_def)
  moreover have "vectorSearchMarkdown [1, 0] [''c0'', ''c1''] [[0, 1], [1, 0]] (- 1) = Inr [''c1'']"
    by (simp add: vectorSearchMarkdown_def upt_0_2 cosineSim_orthogonal cosineSim_same
        js_sort_def js_cmp_def compareScore_def num_sub_def js_slice_def)
  ultimately show ?thesis
    by (simp add: cosineSim_orthogonal cosineSim_zero_vector cosineSim_same)
qed

section \<open>Properties of callGemini\<close>

lemma backoffs_prepend [simp]: "backoffs (snd (prepend evs res)) = backoffs evs @ backoffs (snd res)"
  by (induction evs rule: backoffs.induct) (simp_all add: prepend_def)

lemma fetches_prepend [simp]: "fetches (snd (prepend evs res)) = fetches evs + fetches (snd res)"
  by (induction evs rule: fetches.induct) (simp_all add: prepend_def)

lemma fst_prepend [simp]: "fst (prepend evs res) = fst res"
  by (simp add: prepend_def)

lemma js_string_of_number_example: "js_string_of_number 404 = ''404''"
  by (simp add: js_string_of_number_def decimalDigits.simps digitChar_def)





















lemma callGemini_rateLimited:
  "callGemini (always rateLimited) ''q'' False ''gemini-2.5-flash'' =
     (Inl (newError ''Gemini API failed after 10 retries''),
      [Sleep 800, Fetch 1, Backoff 1600, Sleep 800, Fetch 2, Backoff 3200,
       Sleep 800, Fetch 3, Backoff 6400, Sleep 800, Fetch 4, Backoff 12800,
       Sleep 800, Fetch 5, Backoff 25600, Sleep 800, Fetch 6, Backoff 51200,
       Sleep 800, Fetch 7, Backoff 102400, Sleep 800, Fetch 8, Backoff 204800,
       Sleep 800, Fetch 9, Backoff 409600, Sleep 800, Fetch 10, Backoff 819200])"
  by (simp add: callGemini_def always_def callGeminiLoop.simps callGemini_try_def rateLimited_def
      prepend_def MAX_RETRIES_def RATE_LIMIT_MS_def)



section \<open>Properties of answerWithBasicRAG\<close>

lemma recallLoop_acc:
  "recallLoop store vectorResults memories =
   memories @ map content (filter (\<lambda>mem. status mem \<noteq> Archived) (hydrate store vectorResults))"
  by (induction vectorResults arbitrary: memories)
     (simp_all add: hydrate_def List.map_filter_simps split: option.splits)

lemma callGeminiRag_answered:
  "fst (callGeminiRag (alwaysRag answered) prompt False) = Inr ''Corp B''"
  by (simp add: callGeminiRag_def alwaysRag_def callGeminiRagLoop.simps callGeminiRag_try_def answered_def)

lemma hydrate_demoStore:
  "hydrate demoStore (searchByVector demoStore queryEmbedding 20) = [memA, memB]"
  by (simp add: hydrate_def demoStore_def List.map_filter_simps)

lemma js_trim_ragPrompt: "js_trim (ragPrompt context question) = ragPrompt context question"
  by (simp add: js_trim_def ragPrompt_def isWhiteSpace_def)

lemma callGeminiRag_echoPrompt:
  "prompt \<noteq> [] \<Longrightarrow> fst (callGeminiRag echoPrompt prompt False) = Inr prompt"
  by (simp add: callGeminiRag_def echoPrompt_def callGeminiRagLoop.simps callGeminiRag_try_def)

lemma ragPrompt_not_empty: "ragPrompt context question \<noteq> []"
  by (simp add: ragPrompt_def)

text \<open>
  C4. No archived memory contributes to the context that \<open>answerWithBasicRAG\<close>
  assembles. The list \<open>memories\<close> that the loop collects is exactly the contents of the
  hydrated vector results whose status is not \<open>archived\<close>, in the order of the vector
  search (a result unknown to the store adds nothing either). When the embedding of the
  question succeeds, the function is determined by those memories alone: the context is
  their contents joined by blank lines, the one prompt handed to \<open>callGemini\<close> is built
  from that context and the question, and the result is the outcome of that call, with
  \<open>memoriesRecalled\<close> the number of those memories. When the embedding fails, the
  function fails with that error before any retrieval.
\<close>

theorem answerWithBasicRAG_skips_archived:
  "recallLoop store vectorResults [] =
     map content (filter (\<lambda>mem. status mem \<noteq> Archived) (hydrate store vectorResults)) \<and>
   (answerWithBasicRAG store embedder fetch question = Inr r \<longrightarrow>
      (\<exists>queryEmbedding. embedder question = Inr queryEmbedding \<and>
         memoriesRecalled r =
           length (filter (\<lambda>mem. status mem \<noteq> Archived)
             (hydrate store (searchByVector store queryEmbedding 20))))) \<and>
   (embedder question = Inr queryEmbedding \<longrightarrow>
      answerWithBasicRAG store embedder fetch question =
        (let kept = filter (\<lambda>mem. status mem \<noteq> Archived)
                      (hydrate store (searchByVector store queryEmbedding 20));
             context = js_join (map content kept) [newline, newline];
             prompt = ragPrompt context question
         in case fst (callGeminiRag fetch prompt False) of
              Inl e \<Rightarrow> Inl e
            | Inr answer' \<Rightarrow>
                Inr \<lparr>answer = js_trim answer',
                     tokensUsed = \<lceil>real (length prompt + length answer') / 4\<rceil>,
                     memoriesRecalled = length kept\<rparr>)) \<and>
   (embedder question = Inl err \<longrightarrow> answerWithBasicRAG store embedder fetch question = Inl err)"
proof (intro conjI impI)
  show "recallLoop store vectorResults [] =
      map content (filter (\<lambda>mem. status mem \<noteq> Archived) (hydrate store vectorResults))"
    by (simp add: recallLoop_acc)
next
  assume ret: "answerWithBasicRAG store embedder fetch question = Inr r"
  then obtain queryEmbedding where emb: "embedder question = Inr queryEmbedding"
    by (cases "embedder question") (simp_all add: answerWithBasicRAG_def)
  from ret emb have "memoriesRecalled r =
      length (recallLoop store (searchByVector store queryEmbedding 20) [])"
    by (auto simp add: answerWithBasicRAG_def Let_def split: sum.splits)
  with emb show "\<exists>queryEmbedding. embedder question = Inr queryEmbedding \<and>
      memoriesRecalled r =
        length (filter (\<lambda>mem. status mem \<noteq> Archived)
          (hydrate store (searchByVector store queryEmbedding 20)))"
    by (simp add: recallLoop_acc)
next
  assume "embedder question = Inr queryEmbedding"
  then show "answerWithBasicRAG store embedder fetch question =
        (let kept = filter (\<lambda>mem. status mem \<noteq> Archived)
                      (hydrate store (searchByVector store queryEmbedding 20));
             context = js_join (map content kept) [newline, newline];
             prompt = ragPrompt context question
         in case fst (callGeminiRag fetch prompt False) of
              Inl e \<Rightarrow> Inl e
            | Inr answer' \<Rightarrow>
                Inr \<lparr>answer = js_trim answer',
                     tokensUsed = \<lceil>real (length prompt + length answer') / 4\<rceil>,
                     memoriesRecalled = length kept\<rparr>)"
    by (simp add: answerWithBasicRAG_def Let_def recallLoop_acc split: sum.splits)
next
  assume "embedder question = Inl err"
  then show "answerWithBasicRAG store embedder fetch question = Inl err"
    by (simp add: answerWithBasicRAG_def)
qed

lemma answerWithBasicRAG_demo:
  "\<exists>r. answerWithBasicRAG demoStore demoEmbed (alwaysRag answered) ''Where does Alex work?'' = Inr r
     \<and> answer r = ''Corp B''"
  by (simp add: answerWithBasicRAG_def demoEmbed_def Let_def callGeminiRag_answered js_trim_def
      isWhiteSpace_def)

text \<open>
  On the store of the example the vector search returns an archived memory, an unknown
  id and an active memory. The network that answers with the prompt it was sent shows
  the prompt: it holds the content of the active memory and not that of the archived
  one.
\<close>

theorem answerWithBasicRAG_skips_archived_witness:
  "recallLoop demoStore [\<lparr>memoryId = ''a''\<rparr>, \<lparr>memoryId = ''gone''\<rparr>, \<lparr>memoryId = ''b''\<rparr>] [] =
     [''Alex moved to Corp B''] \<and>
   (\<exists>r. answerWithBasicRAG demoStore demoEmbed (alwaysRag answered) ''Where does Alex work?'' = Inr r \<and>
      memoriesRecalled r = 1) \<and>
   status memA = Archived \<and>
   (\<exists>r. answerWithBasicRAG demoStore demoEmbed echoPrompt ''Where does Alex work?'' = Inr r \<and>
      answer r = ragPrompt ''Alex moved to Corp B'' ''Where does Alex work?'' \<and>
      memoriesRecalled r = 1) \<and>
   \<not> js_includes (ragPrompt ''Alex moved to Corp B'' ''Where does Alex work?'') (content memA) \<and>
   answerWithBasicRAG demoStore failingEmbed echoPrompt ''Where does Alex work?'' = Inl quotaError"
proof -
  obtain r where r: "answerWithBasicRAG demoStore demoEmbed (alwaysRag answered)
      ''Where does Alex work?'' = Inr r"
    using answerWithBasicRAG_demo by blast
  note skips = answerWithBasicRAG_skips_archived[of demoStore _ demoEmbed
      "alwaysRag answered" "''Where does Alex work?''" r]
  from skips r have "memoriesRecalled r = 1"
    by (auto simp add: hydrate_demoStore memA_def memB_def)
  with r have one: "\<exists>r. answerWithBasicRAG demoStore demoEmbed (alwaysRag answered)
      ''Where does Alex work?'' = Inr r \<and> memoriesRecalled r = 1"
    by blast
  from skips[of "[\<lparr>memoryId = ''a''\<rparr>, \<lparr>memoryId = ''gone''\<rparr>, \<lparr>memoryId = ''b''\<rparr>]"]
  have loop: "recallLoop demoStore [\<lparr>memoryId = ''a''\<rparr>, \<lparr>memoryId = ''gone''\<rparr>, \<lparr>memoryId = ''b''\<rparr>] [] =
      [''Alex moved to Corp B'']"
    by (simp add: hydrate_def demoStore_def List.map_filter_simps memA_def memB_def)
  have emb: "demoEmbed ''Where does Alex work?'' = Inr [1, 0]"
    by (simp add: demoEmbed_def)
  have kept: "filter (\<lambda>mem. status mem \<noteq> Archived)
      (hydrate demoStore (searchByVector demoStore [1, 0] 20)) = [memB]"
    by (simp add: hydrate_demoStore memA_def memB_def)
  have "answerWithBasicRAG demoStore demoEmbed echoPrompt ''Where does Alex work?'' =
      Inr \<lparr>answer = ragPrompt ''Alex moved to Corp B'' ''Where does Alex work?'',
           tokensUsed = \<lceil>real (length (ragPrompt ''Alex moved to Corp B'' ''Where does Alex work?'') +
             length (ragPrompt ''Alex moved to Corp B'' ''Where does Alex work?'')) / 4\<rceil>,
           memoriesRecalled = 1\<rparr>"
    using answerWithBasicRAG_skips_archived[of demoStore "[]" demoEmbed echoPrompt
        "''Where does Alex work?''" _ "[1, 0]"] emb
    by (simp add: kept Let_def callGeminiRag_echoPrompt[OF ragPrompt_not_empty]
        js_trim_ragPrompt memB_def)
  then have echoed: "\<exists>r. answerWithBasicRAG demoStore demoEmbed echoPrompt
      ''Where does Alex work?'' = Inr r \<and>
      answer r = ragPrompt ''Alex moved to Corp B'' ''Where does Alex work?'' \<and>
      memoriesRecalled r = 1"
    by simp
  have arch: "status memA = Archived" by (simp add: memA_def)
  have absent: "\<not> js_includes (ragPrompt ''Alex moved to Corp B'' ''Where does Alex work?'')
      (content memA)"
    by (simp add: js_includes_def ragPrompt_def memA_def newline_def sublist_code prefix_code)
  have failed: "answerWithBasicRAG demoStore failingEmbed echoPrompt ''Where does Alex work?'' =
      Inl quotaError"
    using answerWithBasicRAG_skips_archived[of demoStore "[]" failingEmbed echoPrompt
        "''Where does Alex work?''" _ _ quotaError]
    by (simp add: failingEmbed_def)
  from loop one arch echoed absent failed show ?thesis by blast
qed





section \<open>Properties of computeEQS\<close>

lemma fold_eqsStep:
  "fold eqsStep results (a, b, c, d, e) =
     (a + sum_list (map accuracy results), b + sum_list (map relevance results),
      c + sum_list (map freshness results), d + sum_list (map efficiency results),
      e + sum_list (map latencyScore results))"
  by (induction results arbitrary: a b c d e)
     (simp_all add: eqsStep_def latencyScore_def algebra_simps)

lemma sum_list_unit:
  assumes "\<forall>x\<in>set xs. inUnit (f x)"
  shows "0 \<le> sum_list (map f xs) \<and> sum_list (map f xs) \<le> real (length xs)"
  using assms by (induction xs) (auto simp add: inUnit_def)

lemma average_unit:
  assumes "xs \<noteq> []" and "\<forall>x\<in>set xs. inUnit (f x)"
  shows "inUnit (sum_list (map f xs) / real (length xs))"
proof -
  from assms(1) have n: "0 < real (length xs)" by simp
  with sum_list_unit[OF assms(2)] show ?thesis
    by (simp add: inUnit_def pos_divide_le_eq)
qed

lemma latencyScore_unit: "inUnit (latencyScore r)"
  by (simp add: latencyScore_def inUnit_def)

lemma js_round_percent:
  assumes "inUnit s"
  shows "0 \<le> js_round (s * 100) \<and> js_round (s * 100) \<le> 100"
proof -
  from assms have "0 \<le> s * 100 + 1 / 2" and "s * 100 + 1 / 2 < 101"
    by (simp_all add: inUnit_def)
  then show ?thesis
    unfolding js_round_def by (simp add: floor_less_iff le_floor_iff)
qed

lemma weighted_unit:
  assumes "inUnit a" "inUnit b" "inUnit c" "inUnit d" "inUnit e"
  shows "inUnit (a * w_accuracy weights + b * w_relevance weights + c * w_freshness weights +
                 d * w_efficiency weights + e * w_latency weights)"
  using assms by (simp add: inUnit_def weights_def)

lemma computeEQS_eq:
  "results \<noteq> [] \<Longrightarrow>
   computeEQS results =
     Some (js_round
       ((sum_list (map accuracy results) / real (length results) * w_accuracy weights +
         sum_list (map relevance results) / real (length results) * w_relevance weights +
         sum_list (map freshness results) / real (length results) * w_freshness weights +
         sum_list (map efficiency results) / real (length results) * w_efficiency weights +
         sum_list (map latencyScore results) / real (length results) * w_latency weights) * 100))"
  by (simp add: computeEQS_def fold_eqsStep Let_def)

lemma runScenario_score_unit:
  "inUnit (accuracy (runScenario_score scenario recalled latency)) \<and>
   inUnit (relevance (runScenario_score scenario recalled latency)) \<and>
   inUnit (freshness (runScenario_score scenario recalled latency)) \<and>
   inUnit (efficiency (runScenario_score scenario recalled latency))"
proof (intro conjI)
  have "length (filter (includedIn recalled) (expectedHits scenario)) \<le> length (expectedHits scenario)"
    by (rule length_filter_le)
  then show "inUnit (accuracy (runScenario_score scenario recalled latency))"
    by (simp add: runScenario_score_def Let_def inUnit_def)
next
  show "inUnit (relevance (runScenario_score scenario recalled latency))"
    by (simp add: runScenario_score_def Let_def inUnit_def)
next
  have "0 \<le> real_of_int (js_findIndex P recalled) / real (length recalled)"
    if "list_ex P recalled" for P
    using that by (simp add: js_findIndex_def)
  then show "inUnit (freshness (runScenario_score scenario recalled latency))"
    by (simp add: runScenario_score_def Let_def inUnit_def includedIn_def split: option.splits)
next
  show "inUnit (efficiency (runScenario_score scenario recalled latency))"
    by (simp add: runScenario_score_def Let_def inUnit_def split: option.splits)
qed

text \<open>
  C8. For a non-empty list of scenario results whose accuracy, relevance, freshness and
  efficiency lie in \<open>[0, 1]\<close>, \<open>computeEQS\<close> returns an integer between 0 and 100: the
  five weights sum to 1, and the latency term is clamped to \<open>[0, 1]\<close> whatever the
  latency is. The scoring of \<open>runScenario\<close> produces those four fields in \<open>[0, 1]\<close> for
  every scenario, every recalled list and every latency.
\<close>

theorem computeEQS_range:
  assumes "results \<noteq> []"
    and "\<forall>r\<in>set results. inUnit (accuracy r) \<and> inUnit (relevance r) \<and>
           inUnit (freshness r) \<and> inUnit (efficiency r)"
  shows "(\<exists>s. computeEQS results = Some s \<and> 0 \<le> s \<and> s \<le> 100) \<and>
         w_accuracy weights + w_relevance weights + w_freshness weights +
           w_efficiency weights + w_latency weights = 1 \<and>
         inUnit (accuracy (runScenario_score scenario recalled latency)) \<and>
         inUnit (relevance (runScenario_score scenario recalled latency)) \<and>
         inUnit (freshness (runScenario_score scenario recalled latency)) \<and>
         inUnit (efficiency (runScenario_score scenario recalled latency))"
proof -
  have "inUnit (sum_list (map accuracy results) / real (length results))"
    "inUnit (sum_list (map relevance results) / real (length results))"
    "inUnit (sum_list (map freshness results) / real (length results))"
    "inUnit (sum_list (map efficiency results) / real (length results))"
    "inUnit (sum_list (map latencyScore results) / real (length results))"
    using assms by (auto intro!: average_unit simp add: latencyScore_unit)
  then have "inUnit
      (sum_list (map accuracy results) / real (length results) * w_accuracy weights +
       sum_list (map relevance results) / real (length results) * w_relevance weights +
       sum_list (map freshness results) / real (length results) * w_freshness weights +
       sum_list (map efficiency results) / real (length results) * w_efficiency weights +
       sum_list (map latencyScore results) / real (length results) * w_latency weights)"
    by (rule weighted_unit)
  from js_round_percent[OF this] computeEQS_eq[OF assms(1)]
  have "\<exists>s. computeEQS results = Some s \<and> 0 \<le> s \<and> s \<le> 100"
    by simp
  moreover have "w_accuracy weights + w_relevance weights + w_freshness weights +
      w_efficiency weights + w_latency weights = 1"
    by (simp add: weights_def)
  ultimately show ?thesis
    using runScenario_score_unit[of scenario recalled latency] by simp
qed

lemma computeEQS_demo: "computeEQS [demoResult] = Some 90"
  by (simp add: computeEQS_def eqsStep_def demoResult_def weights_def js_round_def Let_def)

lemma computeEQS_no_results: "computeEQS [] = None"
  by (simp add: computeEQS_def)

theorem computeEQS_range_witness:
  "[demoResult] \<noteq> [] \<and>
   inUnit (accuracy demoResult) \<and> inUnit (relevance demoResult) \<and>
   inUnit (freshness demoResult) \<and> inUnit (efficiency demoResult) \<and>
   (\<exists>s. computeEQS [demoResult] = Some s \<and> 0 \<le> s \<and> s \<le> 100)"
proof -
  have ne: "[demoResult] \<noteq> []" by simp
  have u: "inUnit (accuracy demoResult)" "inUnit (relevance demoResult)"
    "inUnit (freshness demoResult)" "inUnit (efficiency demoResult)"
    by (simp_all add: inUnit_def demoResult_def)
  then have all: "\<forall>r\<in>set [demoResult]. inUnit (accuracy r) \<and> inUnit (relevance r) \<and>
      inUnit (freshness r) \<and> inUnit (efficiency r)"
    by simp
  from computeEQS_range[OF ne all] ne u show ?thesis by blast
qed

section \<open>Properties of the vault operations\<close>

lemma run_snoc:
  "run v (ops @ [op]) = (case apply_op (run v ops) op of Inl e \<Rightarrow> run v ops | Inr v' \<Rightarrow> v')"
  by (induction ops arbitrary: v) (auto split: sum.splits)

text \<open>
  What one successful operation does to the memory stored under an id: it inserts it, it
  supersedes it, it archives it, or it leaves its status, validity interval and successor
  as they were.
\<close>

lemma apply_op_lookup:
  assumes "apply_op v op = Inr v'" and "v' i = Some m"
  shows "(\<exists>n. op = Insert n \<and> mem_id n = i \<and> v i = None \<and>
            m = n\<lparr>salience := max 0 (min 1 (salience n))\<rparr>) \<or>
         (\<exists>newId atTime old. op = Supersede i newId atTime \<and> v i = Some old \<and>
            m = old\<lparr>valid_until := Some atTime, status := Superseded,
                    superseded_by := Some newId\<rparr>) \<or>
         (\<exists>old. op = Forget i False \<and> v i = Some old \<and> m = old\<lparr>status := Archived\<rparr>) \<or>
         (\<exists>old. v i = Some old \<and> status m = status old \<and> superseded_by m = superseded_by old \<and>
            valid_until m = valid_until old \<and> valid_from m = valid_from old)"
proof -
  have same: ?thesis if "v i = Some m"
    using that by simp
  show ?thesis
  proof (cases op)
    case (Insert n)
    with assms(1) have none: "v (mem_id n) = None"
      and v': "v' = v(mem_id n \<mapsto> n\<lparr>salience := max 0 (min 1 (salience n))\<rparr>)"
      by (simp_all add: insert_memory_def split: if_splits)
    show ?thesis
    proof (cases "i = mem_id n")
      case True
      with assms(2) v' have "m = n\<lparr>salience := max 0 (min 1 (salience n))\<rparr>" by simp
      with Insert True none show ?thesis by blast
    next
      case False
      with assms(2) v' have "v i = Some m" by simp
      then show ?thesis by (rule same)
    qed
  next
    case (Supersede oldId newId atTime)
    with assms(1) obtain old where old: "v oldId = Some old"
      and v': "v' = v(oldId \<mapsto> old\<lparr>valid_until := Some atTime, status := Superseded,
        superseded_by := Some newId\<rparr>)"
      by (auto simp add: supersede_def split: option.splits)
    show ?thesis
    proof (cases "i = oldId")
      case True
      with assms(2) v' have "m = old\<lparr>valid_until := Some atTime, status := Superseded,
          superseded_by := Some newId\<rparr>"
        by simp
      with Supersede True old show ?thesis by blast
    next
      case False
      with assms(2) v' have "v i = Some m" by simp
      then show ?thesis by (rule same)
    qed
  next
    case (Forget j hard)
    with assms(1) obtain old where old: "v j = Some old"
      and v': "v' = (if hard then v(j := None) else v(j \<mapsto> old\<lparr>status := Archived\<rparr>))"
      by (auto simp add: forget_def split: option.splits if_splits)
    show ?thesis
    proof (cases "i = j")
      case True
      with assms(2) v' have "\<not> hard" and "m = old\<lparr>status := Archived\<rparr>"
        by (simp_all split: if_splits)
      with Forget True old show ?thesis by blast
    next
      case False
      with assms(2) v' have "v i = Some m" by (simp split: if_splits)
      then show ?thesis by (rule same)
    qed
  next
    case (Reinforce j increment)
    with assms(1) obtain old where old: "v j = Some old"
      and v': "v' = v(j \<mapsto> old\<lparr>salience := max 0 (min 1 (salience old + max 0 increment)),
        reinforcement_count := reinforcement_count old + 1\<rparr>)"
      by (auto simp add: reinforce_def split: option.splits)
    show ?thesis
    proof (cases "i = j")
      case True
      with assms(2) v' have "m = old\<lparr>salience := max 0 (min 1 (salience old + max 0 increment)),
          reinforcement_count := reinforcement_count old + 1\<rparr>"
        by simp
      then have "status m = status old \<and> superseded_by m = superseded_by old \<and>
          valid_until m = valid_until old \<and> valid_from m = valid_from old"
        by simp
      with True old show ?thesis by blast
    next
      case False
      with assms(2) v' have "v i = Some m" by simp
      then show ?thesis by (rule same)
    qed
  next
    case (Stamp j t)
    with assms(1) obtain old where old: "v j = Some old"
      and v': "v' = v(j \<mapsto> old\<lparr>last_accessed_at := t\<rparr>)"
      by (auto simp add: stamp_def split: option.splits)
    show ?thesis
    proof (cases "i = j")
      case True
      with assms(2) v' have "m = old\<lparr>last_accessed_at := t\<rparr>" by simp
      then have "status m = status old \<and> superseded_by m = superseded_by old \<and>
          valid_until m = valid_until old \<and> valid_from m = valid_from old"
        by simp
      with True old show ?thesis by blast
    next
      case False
      with assms(2) v' have "v i = Some m" by simp
      then show ?thesis by (rule same)
    qed
  next
    case (Decay j d)
    with assms(1) obtain old where old: "v j = Some old"
      and v': "v' = v(j \<mapsto> old\<lparr>salience := max 0 (salience old - max 0 d)\<rparr>)"
      by (auto simp add: decay_def split: option.splits)
    show ?thesis
    proof (cases "i = j")
      case True
      with assms(2) v' have "m = old\<lparr>salience := max 0 (salience old - max 0 d)\<rparr>" by simp
      then have "status m = status old \<and> superseded_by m = superseded_by old \<and>
          valid_until m = valid_until old \<and> valid_from m = valid_from old"
        by simp
      with True old show ?thesis by blast
    next
      case False
      with assms(2) v' have "v i = Some m" by simp
      then show ?thesis by (rule same)
    qed
  qed
qed

lemma insertedAll_iff: "insertedAll P ops = (\<forall>n. Insert n \<in> set ops \<longrightarrow> P n)"
proof
  assume "insertedAll P ops"
  then show "\<forall>n. Insert n \<in> set ops \<longrightarrow> P n"
    by (auto simp add: insertedAll_def list_all_iff)
next
  assume a: "\<forall>n. Insert n \<in> set ops \<longrightarrow> P n"
  show "insertedAll P ops"
    unfolding insertedAll_def list_all_iff
  proof
    fix op assume "op \<in> set ops"
    with a show "case op of Insert n \<Rightarrow> P n | _ \<Rightarrow> True"
      by (cases op) simp_all
  qed
qed

lemma insertedAll_snoc:
  "insertedAll P (ops @ [op]) = (insertedAll P ops \<and> (case op of Insert n \<Rightarrow> P n | _ \<Rightarrow> True))"
  by (simp add: insertedAll_def)

lemma supersedesInTime_iff:
  "supersedesInTime ops =
     (\<forall>oldId newId atTime n. Supersede oldId newId atTime \<in> set ops \<longrightarrow> Insert n \<in> set ops \<longrightarrow>
        mem_id n = newId \<longrightarrow> atTime \<le> valid_from n)"
proof
  assume "supersedesInTime ops"
  then show "\<forall>oldId newId atTime n. Supersede oldId newId atTime \<in> set ops \<longrightarrow>
      Insert n \<in> set ops \<longrightarrow> mem_id n = newId \<longrightarrow> atTime \<le> valid_from n"
    by (auto simp add: supersedesInTime_def list_all_iff insertedAll_iff)
next
  assume a: "\<forall>oldId newId atTime n. Supersede oldId newId atTime \<in> set ops \<longrightarrow>
      Insert n \<in> set ops \<longrightarrow> mem_id n = newId \<longrightarrow> atTime \<le> valid_from n"
  show "supersedesInTime ops"
    unfolding supersedesInTime_def list_all_iff
  proof
    fix op assume "op \<in> set ops"
    with a show "case op of
        Supersede oldId newId atTime \<Rightarrow>
          insertedAll (\<lambda>n. mem_id n = newId \<longrightarrow> atTime \<le> valid_from n) ops
      | _ \<Rightarrow> True"
      by (cases op) (simp_all add: insertedAll_iff)
  qed
qed

text \<open>Every stored memory was inserted under its id, with the \<open>valid_from\<close> it has.\<close>

lemma run_inserted:
  "run Map.empty ops i = Some m \<Longrightarrow>
   \<exists>n. Insert n \<in> set ops \<and> mem_id n = i \<and> valid_from n = valid_from m"
proof (induction ops arbitrary: i m rule: rev_induct)
  case Nil
  then show ?case by simp
next
  case (snoc op ops)
  show ?case
  proof (cases "apply_op (run Map.empty ops) op")
    case (Inl e)
    with snoc.prems have "run Map.empty ops i = Some m" by (simp add: run_snoc)
    from snoc.IH[OF this] show ?thesis by auto
  next
    case (Inr v')
    with snoc.prems have m: "v' i = Some m" by (simp add: run_snoc)
    from apply_op_lookup[OF Inr m] show ?thesis
    proof (elim disjE exE conjE)
      fix n assume "op = Insert n" "mem_id n = i"
        "m = n\<lparr>salience := max 0 (min 1 (salience n))\<rparr>"
      then show ?thesis by auto
    next
      fix newId atTime old
      assume old: "run Map.empty ops i = Some old"
        and "m = old\<lparr>valid_until := Some atTime, status := Superseded,
          superseded_by := Some newId\<rparr>"
      then have "valid_from m = valid_from old" by simp
      with snoc.IH[OF old] show ?thesis by auto
    next
      fix old assume old: "run Map.empty ops i = Some old" and "m = old\<lparr>status := Archived\<rparr>"
      then have "valid_from m = valid_from old" by simp
      with snoc.IH[OF old] show ?thesis by auto
    next
      fix old assume old: "run Map.empty ops i = Some old" and "valid_from m = valid_from old"
      with snoc.IH[OF old] show ?thesis by auto
    qed
  qed
qed

text \<open>A superseded memory names a successor, unless it was inserted without one.\<close>

lemma run_superseded_successor:
  "insertedAll (\<lambda>n. status n = Superseded \<longrightarrow> superseded_by n \<noteq> None) ops \<Longrightarrow>
   run Map.empty ops i = Some m \<Longrightarrow> status m = Superseded \<Longrightarrow> superseded_by m \<noteq> None"
proof (induction ops arbitrary: i m rule: rev_induct)
  case Nil
  then show ?case by simp
next
  case (snoc op ops)
  from snoc.prems(1) have ins: "insertedAll (\<lambda>n. status n = Superseded \<longrightarrow> superseded_by n \<noteq> None) ops"
    and here: "\<And>n. op = Insert n \<Longrightarrow> status n = Superseded \<longrightarrow> superseded_by n \<noteq> None"
    by (simp_all add: insertedAll_iff)
  show ?case
  proof (cases "apply_op (run Map.empty ops) op")
    case (Inl e)
    with snoc.prems have "run Map.empty ops i = Some m" by (simp add: run_snoc)
    from snoc.IH[OF ins this snoc.prems(3)] show ?thesis .
  next
    case (Inr v')
    with snoc.prems have m: "v' i = Some m" by (simp add: run_snoc)
    from apply_op_lookup[OF Inr m] show ?thesis
    proof (elim disjE exE conjE)
      fix n assume "op = Insert n" "m = n\<lparr>salience := max 0 (min 1 (salience n))\<rparr>"
      with here[of n] snoc.prems(3) show ?thesis by simp
    next
      fix newId atTime old
      assume "m = old\<lparr>valid_until := Some atTime, status := Superseded,
          superseded_by := Some newId\<rparr>"
      then show ?thesis by simp
    next
      fix old assume "m = old\<lparr>status := Archived\<rparr>"
      with snoc.prems(3) show ?thesis by simp
    next
      fix old assume old: "run Map.empty ops i = Some old" and "status m = status old"
        "superseded_by m = superseded_by old"
      with snoc.IH[OF ins old] snoc.prems(3) show ?thesis by simp
    qed
  qed
qed

text \<open>A memory that names a successor is superseded or archived, unless inserted otherwise.\<close>

lemma run_successor_superseded:
  "insertedAll (\<lambda>n. superseded_by n \<noteq> None \<longrightarrow> status n = Superseded \<or> status n = Archived) ops \<Longrightarrow>
   run Map.empty ops i = Some m \<Longrightarrow> superseded_by m \<noteq> None \<Longrightarrow>
   status m = Superseded \<or> status m = Archived"
proof (induction ops arbitrary: i m rule: rev_induct)
  case Nil
  then show ?case by simp
next
  case (snoc op ops)
  from snoc.prems(1)
  have ins: "insertedAll (\<lambda>n. superseded_by n \<noteq> None \<longrightarrow> status n = Superseded \<or> status n = Archived) ops"
    and here: "\<And>n. op = Insert n \<Longrightarrow>
      superseded_by n \<noteq> None \<longrightarrow> status n = Superseded \<or> status n = Archived"
    by (simp_all add: insertedAll_iff)
  show ?case
  proof (cases "apply_op (run Map.empty ops) op")
    case (Inl e)
    with snoc.prems have "run Map.empty ops i = Some m" by (simp add: run_snoc)
    from snoc.IH[OF ins this snoc.prems(3)] show ?thesis .
  next
    case (Inr v')
    with snoc.prems have m: "v' i = Some m" by (simp add: run_snoc)
    from apply_op_lookup[OF Inr m] show ?thesis
    proof (elim disjE exE conjE)
      fix n assume "op = Insert n" "m = n\<lparr>salience := max 0 (min 1 (salience n))\<rparr>"
      with here[of n] snoc.prems(3) show ?thesis by simp
    next
      fix newId atTime old
      assume "m = old\<lparr>valid_until := Some atTime, status := Superseded,
          superseded_by := Some newId\<rparr>"
      then show ?thesis by simp
    next
      fix old assume "m = old\<lparr>status := Archived\<rparr>"
      then show ?thesis by simp
    next
      fix old assume old: "run Map.empty ops i = Some old" and "status m = status old"
        "superseded_by m = superseded_by old"
      with snoc.IH[OF ins old] snoc.prems(3) show ?thesis by simp
    qed
  qed
qed

text \<open>
  The successor and the end of validity of a memory are those of a \<open>supersede\<close> of the
  history, when no memory is inserted with a successor.
\<close>

lemma run_successor_origin:
  "insertedAll (\<lambda>n. superseded_by n = None) ops \<Longrightarrow>
   run Map.empty ops i = Some m \<Longrightarrow> superseded_by m = Some s \<Longrightarrow>
   \<exists>atTime. Supersede i s atTime \<in> set ops \<and> valid_until m = Some atTime"
proof (induction ops arbitrary: i m rule: rev_induct)
  case Nil
  then show ?case by simp
next
  case (snoc op ops)
  from snoc.prems(1) have ins: "insertedAll (\<lambda>n. superseded_by n = None) ops"
    and last: "case op of Insert n \<Rightarrow> superseded_by n = None | _ \<Rightarrow> True"
    unfolding insertedAll_snoc by blast+
  have here: "superseded_by n = None" if "op = Insert n" for n
    using last that by simp
  have earlier: "\<exists>atTime. Supersede i s atTime \<in> set (ops @ [op]) \<and> valid_until m = Some atTime"
    if old: "run Map.empty ops i = Some old" and s: "superseded_by old = Some s"
      and u: "valid_until m = valid_until old" for old
  proof -
    from snoc.IH[OF ins old s] obtain atTime where "Supersede i s atTime \<in> set ops"
      and "valid_until old = Some atTime"
      by blast
    with u have "Supersede i s atTime \<in> set (ops @ [op]) \<and> valid_until m = Some atTime"
      by simp
    then show ?thesis ..
  qed
  show ?case
  proof (cases "apply_op (run Map.empty ops) op")
    case (Inl e)
    with snoc.prems(2) have "run Map.empty ops i = Some m" by (simp add: run_snoc)
    from earlier[OF this snoc.prems(3) refl] show ?thesis .
  next
    case (Inr v')
    with snoc.prems(2) have m: "v' i = Some m" by (simp add: run_snoc)
    from apply_op_lookup[OF Inr m] show ?thesis
    proof (elim disjE exE conjE)
      fix n assume "op = Insert n" and mn: "m = n\<lparr>salience := max 0 (min 1 (salience n))\<rparr>"
      then have "superseded_by n = None" by (simp add: here)
      with mn have "superseded_by m = None" by simp
      with snoc.prems(3) show ?thesis by simp
    next
      fix newId atTime old
      assume op: "op = Supersede i newId atTime"
        and mo: "m = old\<lparr>valid_until := Some atTime, status := Superseded,
          superseded_by := Some newId\<rparr>"
      from mo have "superseded_by m = Some newId" and u: "valid_until m = Some atTime"
        by simp_all
      with snoc.prems(3) have "newId = s" by simp
      with op u have "Supersede i s atTime \<in> set (ops @ [op]) \<and> valid_until m = Some atTime"
        by simp
      then show ?thesis ..
    next
      fix old assume old: "run Map.empty ops i = Some old" and mo: "m = old\<lparr>status := Archived\<rparr>"
      from mo have "superseded_by m = superseded_by old" and u: "valid_until m = valid_until old"
        by simp_all
      with snoc.prems(3) have "superseded_by old = Some s" by simp
      from earlier[OF old this u] show ?thesis .
    next
      fix old assume old: "run Map.empty ops i = Some old"
        and same: "superseded_by m = superseded_by old" and u: "valid_until m = valid_until old"
      from same snoc.prems(3) have "superseded_by old = Some s" by simp
      from earlier[OF old this u] show ?thesis .
    qed
  qed
qed

lemma run_successor_in_time:
  assumes "insertedAll (\<lambda>n. superseded_by n = None) ops" and "supersedesInTime ops"
    and "run Map.empty ops i = Some m" and "superseded_by m = Some s"
    and "run Map.empty ops s = Some n"
  shows "\<exists>u. valid_until m = Some u \<and> u \<le> valid_from n"
proof -
  from run_successor_origin[OF assms(1,3,4)]
  obtain atTime where sup: "Supersede i s atTime \<in> set ops" and u: "valid_until m = Some atTime"
    by blast
  from run_inserted[OF assms(5)]
  obtain n0 where n0: "Insert n0 \<in> set ops" "mem_id n0 = s" "valid_from n0 = valid_from n"
    by blast
  from assms(2) sup n0 have "atTime \<le> valid_from n0"
    unfolding supersedesInTime_iff by blast
  with u n0(3) show ?thesis by simp
qed

lemma run_insertOps:
  "run Map.empty insertOps ''d1'' = Some march1" "run Map.empty insertOps ''d2'' = Some march15"
  by (simp_all add: insertOps_def insert_memory_def march1_def march15_def)

lemma run_deadlineOps:
  "run Map.empty deadlineOps ''d1'' = Some (march1\<lparr>valid_until := Some 7, status := Superseded,
      superseded_by := Some ''d2''\<rparr>)"
  "run Map.empty deadlineOps ''d2'' = Some (march15\<lparr>valid_until := Some 13, status := Superseded,
      superseded_by := Some ''d3''\<rparr>)"
  by (simp_all add: deadlineOps_def insert_memory_def supersede_def march1_def march15_def
      april1_def)

lemma run_archiveOps:
  "run Map.empty archiveOps ''d1'' = Some (march1\<lparr>valid_until := Some 7, status := Archived,
      superseded_by := Some ''d2''\<rparr>)"
  by (simp add: archiveOps_def insert_memory_def supersede_def forget_def march1_def march15_def)

lemma run_lateOps:
  "run Map.empty lateOps ''d1'' = Some (march1\<lparr>valid_until := Some 9, status := Superseded,
      superseded_by := Some ''d2''\<rparr>)"
  "run Map.empty lateOps ''d2'' = Some march15"
  by (simp_all add: lateOps_def insert_memory_def supersede_def march1_def march15_def)

lemma run_forgottenOps:
  "run Map.empty forgottenOps ''d1'' = Some (march1\<lparr>valid_until := Some 7, status := Superseded,
      superseded_by := Some ''d2''\<rparr>)"
  "run Map.empty forgottenOps ''d2'' = None"
  by (simp_all add: forgottenOps_def insert_memory_def supersede_def forget_def march1_def
      march15_def)

lemma run_stressOps:
  "run Map.empty stressOps ''c1'' = Some outdated"
  by (simp add: stressOps_def insert_memory_def outdated_def remembered_def)

lemma inserted_deadlineOps:
  "insertedAll P deadlineOps = (P march1 \<and> P march15 \<and> P april1)"
  by (simp add: insertedAll_def deadlineOps_def)

lemma supersedesInTime_deadlineOps: "supersedesInTime deadlineOps"
  by (simp add: supersedesInTime_def insertedAll_def deadlineOps_def march1_def march15_def
      april1_def)

text \<open>
  C2 (as amended). After every history of store operations from the empty vault, for
  every memory \<open>m\<close> stored under an id \<open>i\<close>:

  \<^item> if no memory was inserted with status \<open>superseded\<close> and without a successor, then
    \<open>m\<close> has \<open>superseded_by\<close> set whenever its status is \<open>superseded\<close>;

  \<^item> if every memory inserted with a successor was inserted as \<open>superseded\<close> or
    \<open>archived\<close>, then \<open>m\<close> is \<open>superseded\<close> or \<open>archived\<close> whenever \<open>superseded_by\<close> is
    set;

  \<^item> if no memory was inserted with a successor, then a successor \<open>s\<close> of \<open>m\<close> and
    \<open>m.valid_until\<close> were set by a \<open>supersede(i, s, at)\<close> of the history, with
    \<open>m.valid_until = at\<close>;

  \<^item> if moreover every \<open>supersede\<close> was given an instant that is at most the
    \<open>valid_from\<close> of the memories inserted under the successor's id, then
    \<open>m.valid_until\<close> is at most the \<open>valid_from\<close> of the successor, whenever the
    successor is still stored.
\<close>

theorem supersession_invariant:
  assumes "run Map.empty ops i = Some m"
  shows "(insertedAll (\<lambda>n. status n = Superseded \<longrightarrow> superseded_by n \<noteq> None) ops \<longrightarrow>
            (status m = Superseded \<longrightarrow> superseded_by m \<noteq> None)) \<and>
         (insertedAll (\<lambda>n. superseded_by n \<noteq> None \<longrightarrow>
                           status n = Superseded \<or> status n = Archived) ops \<longrightarrow>
            (superseded_by m \<noteq> None \<longrightarrow> status m = Superseded \<or> status m = Archived)) \<and>
         (insertedAll (\<lambda>n. superseded_by n = None) ops \<longrightarrow>
            (\<forall>s. superseded_by m = Some s \<longrightarrow>
               (\<exists>atTime. Supersede i s atTime \<in> set ops \<and> valid_until m = Some atTime))) \<and>
         (insertedAll (\<lambda>n. superseded_by n = None) ops \<and> supersedesInTime ops \<longrightarrow>
            (\<forall>s n. superseded_by m = Some s \<and> run Map.empty ops s = Some n \<longrightarrow>
               (\<exists>u. valid_until m = Some u \<and> u \<le> valid_from n)))"
proof (intro conjI impI allI)
  assume "insertedAll (\<lambda>n. status n = Superseded \<longrightarrow> superseded_by n \<noteq> None) ops"
    and "status m = Superseded"
  with assms show "superseded_by m \<noteq> None"
    using run_superseded_successor by blast
next
  assume "insertedAll (\<lambda>n. superseded_by n \<noteq> None \<longrightarrow>
      status n = Superseded \<or> status n = Archived) ops"
    and "superseded_by m \<noteq> None"
  with assms show "status m = Superseded \<or> status m = Archived"
    using run_successor_superseded by blast
next
  fix s
  assume "insertedAll (\<lambda>n. superseded_by n = None) ops" and "superseded_by m = Some s"
  with assms show "\<exists>atTime. Supersede i s atTime \<in> set ops \<and> valid_until m = Some atTime"
    using run_successor_origin by blast
next
  fix s n
  assume "insertedAll (\<lambda>n. superseded_by n = None) ops \<and> supersedesInTime ops"
    and "superseded_by m = Some s \<and> run Map.empty ops s = Some n"
  with assms show "\<exists>u. valid_until m = Some u \<and> u \<le> valid_from n"
    using run_successor_in_time by blast
qed

theorem supersession_invariant_witness:
  "run Map.empty deadlineOps ''d1'' =
     Some (march1\<lparr>valid_until := Some 7, status := Superseded, superseded_by := Some ''d2''\<rparr>) \<and>
   run Map.empty deadlineOps ''d2'' =
     Some (march15\<lparr>valid_until := Some 13, status := Superseded, superseded_by := Some ''d3''\<rparr>) \<and>
   supersedesInTime deadlineOps \<and>
   superseded_by (march1\<lparr>valid_until := Some 7, status := Superseded,
     superseded_by := Some ''d2''\<rparr>) \<noteq> None \<and>
   (status (march1\<lparr>valid_until := Some 7, status := Superseded,
      superseded_by := Some ''d2''\<rparr>) = Superseded \<or>
    status (march1\<lparr>valid_until := Some 7, status := Superseded,
      superseded_by := Some ''d2''\<rparr>) = Archived) \<and>
   (\<exists>atTime. Supersede ''d1'' ''d2'' atTime \<in> set deadlineOps \<and>
      valid_until (march1\<lparr>valid_until := Some 7, status := Superseded,
        superseded_by := Some ''d2''\<rparr>) = Some atTime) \<and>
   (\<exists>u. valid_until (march1\<lparr>valid_until := Some 7, status := Superseded,
        superseded_by := Some ''d2''\<rparr>) = Some u \<and>
      u \<le> valid_from (march15\<lparr>valid_until := Some 13, status := Superseded,
        superseded_by := Some ''d3''\<rparr>))"
proof -
  note inv = supersession_invariant[OF run_deadlineOps(1)]
  have fresh: "insertedAll (\<lambda>n. superseded_by n = None) deadlineOps"
    by (simp add: inserted_deadlineOps march1_def march15_def april1_def)
  have named: "insertedAll (\<lambda>n. status n = Superseded \<longrightarrow> superseded_by n \<noteq> None) deadlineOps"
    by (simp add: inserted_deadlineOps march1_def march15_def april1_def)
  have marked: "insertedAll (\<lambda>n. superseded_by n \<noteq> None \<longrightarrow>
      status n = Superseded \<or> status n = Archived) deadlineOps"
    by (simp add: inserted_deadlineOps march1_def march15_def april1_def)
  have s: "superseded_by (march1\<lparr>valid_until := Some 7, status := Superseded,
      superseded_by := Some ''d2''\<rparr>) = Some ''d2''"
    and st: "status (march1\<lparr>valid_until := Some 7, status := Superseded,
      superseded_by := Some ''d2''\<rparr>) = Superseded"
    by simp_all
  from inv named st
  have successor: "superseded_by (march1\<lparr>valid_until := Some 7, status := Superseded,
      superseded_by := Some ''d2''\<rparr>) \<noteq> None"
    by blast
  from inv marked successor
  have status: "status (march1\<lparr>valid_until := Some 7, status := Superseded,
      superseded_by := Some ''d2''\<rparr>) = Superseded \<or>
    status (march1\<lparr>valid_until := Some 7, status := Superseded,
      superseded_by := Some ''d2''\<rparr>) = Archived"
    by blast
  from inv fresh s
  have origin: "\<exists>atTime. Supersede ''d1'' ''d2'' atTime \<in> set deadlineOps \<and>
      valid_until (march1\<lparr>valid_until := Some 7, status := Superseded,
        superseded_by := Some ''d2''\<rparr>) = Some atTime"
    by blast
  from inv fresh supersedesInTime_deadlineOps s run_deadlineOps(2)
  have "\<exists>u. valid_until (march1\<lparr>valid_until := Some 7, status := Superseded,
        superseded_by := Some ''d2''\<rparr>) = Some u \<and>
      u \<le> valid_from (march15\<lparr>valid_until := Some 13, status := Superseded,
        superseded_by := Some ''d3''\<rparr>)"
    by blast
  with successor status origin run_deadlineOps supersedesInTime_deadlineOps show ?thesis by blast
qed

text \<open>
  C2 as stated fails on five histories. An outdated fact stored with the status
  \<open>superseded\<close> given by the caller, as the stress evaluation stores it: the status is
  \<open>superseded\<close> and no successor is set. A superseded fact archived: \<open>superseded_by\<close>
  stays set while the status is \<open>archived\<close>. A fact updated twice: the first version is
  superseded by the second, which is itself superseded and not active. A successor
  forgotten for good: \<open>superseded_by\<close> names a memory that is no longer stored. A
  supersession recorded at an instant after the successor's \<open>valid_from\<close>:
  \<open>valid_until = 9\<close> exceeds the successor's \<open>valid_from = 7\<close>.
\<close>

theorem supersession_invariant_counterexample:
  "map_option status (run Map.empty stressOps ''c1'') = Some Superseded \<and>
   map_option superseded_by (run Map.empty stressOps ''c1'') = Some None \<and>
   \<not> supersessionOk (run Map.empty stressOps) (the (run Map.empty stressOps ''c1'')) \<and>
   map_option status (run Map.empty archiveOps ''d1'') = Some Archived \<and>
   map_option superseded_by (run Map.empty archiveOps ''d1'') = Some (Some ''d2'') \<and>
   \<not> supersessionOk (run Map.empty archiveOps) (the (run Map.empty archiveOps ''d1'')) \<and>
   map_option status (run Map.empty deadlineOps ''d1'') = Some Superseded \<and>
   map_option superseded_by (run Map.empty deadlineOps ''d1'') = Some (Some ''d2'') \<and>
   map_option status (run Map.empty deadlineOps ''d2'') = Some Superseded \<and>
   \<not> supersessionOk (run Map.empty deadlineOps) (the (run Map.empty deadlineOps ''d1'')) \<and>
   map_option superseded_by (run Map.empty forgottenOps ''d1'') = Some (Some ''d2'') \<and>
   run Map.empty forgottenOps ''d2'' = None \<and>
   \<not> supersessionOk (run Map.empty forgottenOps) (the (run Map.empty forgottenOps ''d1'')) \<and>
   map_option valid_until (run Map.empty lateOps ''d1'') = Some (Some 9) \<and>
   map_option valid_from (run Map.empty lateOps ''d2'') = Some 7 \<and>
   \<not> supersessionOk (run Map.empty lateOps) (the (run Map.empty lateOps ''d1''))"
  by (simp add: run_stressOps run_deadlineOps run_archiveOps run_forgottenOps run_lateOps
      supersessionOk_def march1_def march15_def outdated_def remembered_def)
section \<open>Properties of the recall pipeline\<close>

lemma uniqueById_subset: "set (uniqueById seen ms) \<subseteq> set ms"
  by (induction ms arbitrary: seen) auto

lemma uniqueById_ids:
  "m \<in> set (uniqueById seen ms) \<Longrightarrow> mem_id m \<notin> set seen"
proof (induction ms arbitrary: seen)
  case Nil
  then show ?case by simp
next
  case (Cons x xs)
  show ?case
  proof (cases "mem_id x \<in> set seen")
    case True
    with Cons.prems have "m \<in> set (uniqueById seen xs)" by simp
    then show ?thesis by (rule Cons.IH)
  next
    case False
    with Cons.prems consider "m = x" | "m \<in> set (uniqueById (mem_id x # seen) xs)"
      by auto
    then show ?thesis
    proof cases
      case 1
      with False show ?thesis by simp
    next
      case 2
      from Cons.IH[OF 2] show ?thesis by simp
    qed
  qed
qed

lemma uniqueById_distinct: "distinct (uniqueById seen ms)"
proof (induction ms arbitrary: seen)
  case Nil
  then show ?case by simp
next
  case (Cons m ms)
  have "m \<notin> set (uniqueById (mem_id m # seen) ms)"
    using uniqueById_ids[of m "mem_id m # seen" ms] by auto
  with Cons show ?case by simp
qed

lemma insertRanked_mset: "mset (insertRanked score x ys) = add_mset x (mset ys)"
  by (induction ys) simp_all

lemma rank_mset: "mset (rank score xs) = mset xs"
  by (induction xs) (simp_all add: rank_def insertRanked_mset)

lemma rank_set: "set (rank score xs) = set xs"
  by (rule mset_eq_setD) (rule rank_mset)

lemma rank_distinct: "distinct (rank score xs) = distinct xs"
  by (rule mset_eq_imp_distinct_iff) (rule rank_mset)

lemma candidates_distinct: "distinct (candidates q factor seeds surfaced)"
  by (simp add: candidates_def Let_def uniqueById_distinct split: option.splits)

lemma candidates_validAt:
  "rq_at q = Some t \<Longrightarrow> m \<in> set (candidates q factor seeds surfaced) \<Longrightarrow> validAt t m"
  by (simp add: candidates_def Let_def)

lemma latest_in: "latest best ms \<in> set (best # ms)"
  by (induction ms arbitrary: best) auto

lemma latest_max: "m \<in> set (best # ms) \<Longrightarrow> valid_from m \<le> valid_from (latest best ms)"
proof (induction ms arbitrary: best m)
  case Nil
  then show ?case by simp
next
  case (Cons x xs)
  let ?b = "if valid_from x > valid_from best then x else best"
  have b: "valid_from best \<le> valid_from ?b" "valid_from x \<le> valid_from ?b" by simp_all
  have "valid_from ?b \<le> valid_from (latest ?b xs)"
    using Cons.IH[of ?b ?b] by simp
  moreover have "valid_from m \<le> valid_from (latest ?b xs)" if "m \<in> set xs"
    using that Cons.IH[of m ?b] by simp
  ultimately show ?case using Cons.prems b by auto
qed

lemma resolveGroup_retained:
  assumes "g \<noteq> []" and "resolveGroup g = (r, ds)"
  shows "r \<in> set g" and "ds = remove1 r g"
    and "\<exists>m\<in>set g. status m = Active \<Longrightarrow>
         status r = Active \<and> (\<forall>m\<in>set g. status m = Active \<longrightarrow> valid_from m \<le> valid_from r)"
proof -
  define actives where "actives = filter (\<lambda>m. status m = Active) g"
  define pool where "pool = (if actives = [] then g else actives)"
  have pool_ne: "pool \<noteq> []" using assms(1) by (simp add: pool_def)
  then have pool_eq: "hd pool # tl pool = pool" by simp
  have "resolveGroup g = (latest (hd pool) (tl pool), remove1 (latest (hd pool) (tl pool)) g)"
    unfolding resolveGroup_def Let_def pool_def actives_def by (rule refl)
  then have "fst (resolveGroup g) = latest (hd pool) (tl pool)"
    and "snd (resolveGroup g) = remove1 (latest (hd pool) (tl pool)) g"
    by simp_all
  with assms(2) have r: "r = latest (hd pool) (tl pool)"
    and ds': "ds = remove1 (latest (hd pool) (tl pool)) g"
    by simp_all
  from ds' r have ds: "ds = remove1 r g" by simp
  have "r \<in> set pool"
    using latest_in[of "hd pool" "tl pool"] pool_eq r by simp
  moreover have "set pool \<subseteq> set g" by (auto simp add: pool_def actives_def)
  ultimately show "r \<in> set g" by blast
  show "ds = remove1 r g" by (rule ds)
  assume "\<exists>m\<in>set g. status m = Active"
  then have "actives \<noteq> []" by (auto simp add: actives_def filter_empty_conv)
  then have pa: "pool = actives" by (simp add: pool_def)
  with \<open>r \<in> set pool\<close> have "status r = Active" by (simp add: actives_def)
  moreover have "valid_from m \<le> valid_from r" if "m \<in> set g" "status m = Active" for m
  proof -
    from that have "m \<in> set pool" by (simp add: pa actives_def)
    then have "m \<in> set (hd pool # tl pool)" by (simp only: pool_eq)
    then show ?thesis unfolding r by (rule latest_max)
  qed
  ultimately show "status r = Active \<and> (\<forall>m\<in>set g. status m = Active \<longrightarrow> valid_from m \<le> valid_from r)"
    by blast
qed

lemma dedup_group:
  "(r, ds) \<in> set (dedup key xs) \<Longrightarrow>
   \<exists>g. g \<noteq> [] \<and> set g = {m \<in> set xs. key m = key r} \<and> (distinct xs \<longrightarrow> distinct g) \<and>
       resolveGroup g = (r, ds)"
proof (induction key xs rule: dedup.induct)
  case (1 key)
  then show ?case by simp
next
  case (2 key m ms)
  define g0 where "g0 = m # filter (\<lambda>x. key x = key m) ms"
  from "2.prems" consider (first) "resolveGroup g0 = (r, ds)"
    | (rest) "(r, ds) \<in> set (dedup key (filter (\<lambda>x. key x \<noteq> key m) ms))"
    by (auto simp add: g0_def)
  then show ?case
  proof cases
    case first
    have ne: "g0 \<noteq> []" by (simp add: g0_def)
    from resolveGroup_retained(1)[OF ne first] have "key r = key m"
      by (auto simp add: g0_def)
    then have "set g0 = {x \<in> set (m # ms). key x = key r}"
      by (auto simp add: g0_def)
    moreover have "distinct (m # ms) \<longrightarrow> distinct g0" by (simp add: g0_def)
    ultimately show ?thesis using ne first by blast
  next
    case rest
    from "2.IH"[OF rest] obtain g where g: "g \<noteq> []"
      "set g = {x \<in> set (filter (\<lambda>x. key x \<noteq> key m) ms). key x = key r}"
      "distinct (filter (\<lambda>x. key x \<noteq> key m) ms) \<longrightarrow> distinct g"
      "resolveGroup g = (r, ds)"
      by blast
    from resolveGroup_retained(1)[OF g(1) g(4)] g(2) have "key r \<noteq> key m" by auto
    then have "{x \<in> set (filter (\<lambda>x. key x \<noteq> key m) ms). key x = key r} =
        {x \<in> set (m # ms). key x = key r}"
      by auto
    with g(2) have "set g = {x \<in> set (m # ms). key x = key r}" by (simp only:)
    moreover from g(3) have "distinct (m # ms) \<longrightarrow> distinct g" by simp
    ultimately show ?thesis using g(1) g(4) by blast
  qed
qed

lemma dedup_retained_in: "(r, ds) \<in> set (dedup key xs) \<Longrightarrow> r \<in> set xs"
proof -
  assume "(r, ds) \<in> set (dedup key xs)"
  from dedup_group[OF this] obtain g where "g \<noteq> []" "set g = {m \<in> set xs. key m = key r}"
    "resolveGroup g = (r, ds)" by blast
  with resolveGroup_retained(1)[of g r ds] show ?thesis by auto
qed

lemma dedup_keys_distinct: "distinct (map (\<lambda>p. key (fst p)) (dedup key xs))"
proof (induction key xs rule: dedup.induct)
  case (1 key)
  then show ?case by simp
next
  case (2 key m ms)
  define g0 where "g0 = m # filter (\<lambda>x. key x = key m) ms"
  define others where "others = dedup key (filter (\<lambda>x. key x \<noteq> key m) ms)"
  have unfold: "dedup key (m # ms) = resolveGroup g0 # others"
    by (simp add: g0_def others_def)
  have ne: "g0 \<noteq> []" by (simp add: g0_def)
  obtain r0 ds0 where r0: "resolveGroup g0 = (r0, ds0)" by (cases "resolveGroup g0")
  have "r0 \<in> set g0" using ne r0 by (rule resolveGroup_retained(1))
  then have k0: "key r0 = key m" by (auto simp add: g0_def)
  have notin: "key m \<notin> (\<lambda>p. key (fst p)) ` set others"
  proof
    assume "key m \<in> (\<lambda>p. key (fst p)) ` set others"
    then obtain p where p: "p \<in> set others" and k: "key m = key (fst p)" by (rule imageE)
    from p have "(fst p, snd p) \<in> set (dedup key (filter (\<lambda>x. key x \<noteq> key m) ms))"
      by (simp add: others_def)
    then have "fst p \<in> set (filter (\<lambda>x. key x \<noteq> key m) ms)"
      by (rule dedup_retained_in)
    with k show False by simp
  qed
  have "distinct (map (\<lambda>p. key (fst p)) others)"
    unfolding others_def by (rule "2.IH")
  with notin k0 show ?case
    unfolding unfold r0 by simp
qed

lemma dedup_covers:
  "m \<in> set xs \<Longrightarrow> \<exists>r ds. (r, ds) \<in> set (dedup key xs) \<and> key r = key m"
proof (induction key xs rule: dedup.induct)
  case (1 key)
  then show ?case by simp
next
  case (2 key x xs)
  define g0 where "g0 = x # filter (\<lambda>y. key y = key x) xs"
  have ne: "g0 \<noteq> []" by (simp add: g0_def)
  obtain r0 ds0 where r0: "resolveGroup g0 = (r0, ds0)" by (cases "resolveGroup g0")
  have "r0 \<in> set g0" using ne r0 by (rule resolveGroup_retained(1))
  then have k0: "key r0 = key x" by (auto simp add: g0_def)
  have first: "(r0, ds0) \<in> set (dedup key (x # xs))"
    using r0 by (simp add: g0_def)
  show ?case
  proof (cases "key m = key x")
    case True
    with k0 first show ?thesis by auto
  next
    case False
    with "2.prems" have "m \<in> set (filter (\<lambda>y. key y \<noteq> key x) xs)" by auto
    from "2.IH"[OF this] obtain r ds where
      "(r, ds) \<in> set (dedup key (filter (\<lambda>y. key y \<noteq> key x) xs))" "key r = key m"
      by blast
    then show ?thesis by auto
  qed
qed

lemma recall_subset_retained:
  "m \<in> set (recall q factor seeds surfaced score key) \<Longrightarrow>
   \<exists>ds. (m, ds) \<in> set (recallGroups q factor seeds surfaced score key)"
proof -
  assume "m \<in> set (recall q factor seeds surfaced score key)"
  then have "m \<in> set (map fst (recallGroups q factor seeds surfaced score key))"
    unfolding recall_def by (rule in_set_takeD)
  then show ?thesis by auto
qed

lemma recall_subset_candidates:
  "m \<in> set (recall q factor seeds surfaced score key) \<Longrightarrow>
   m \<in> set (candidates q factor seeds surfaced)"
proof -
  assume "m \<in> set (recall q factor seeds surfaced score key)"
  then obtain ds where "(m, ds) \<in> set (recallGroups q factor seeds surfaced score key)"
    using recall_subset_retained by blast
  then have "m \<in> set (rank score (candidates q factor seeds surfaced))"
    unfolding recallGroups_def by (rule dedup_retained_in)
  then show ?thesis by (simp only: rank_set)
qed

lemma rank_deadlines: "rank constantScore [march1, march15, april1] = [april1, march15, march1]"
  by (simp add: rank_def ranksBefore_def constantScore_def march1_def march15_def april1_def)

lemma candidates_deadlines:
  "candidates current 4 [march1, march15, april1] [] = [march1, march15, april1]"
  by (simp add: candidates_def current_def march1_def march15_def april1_def)

lemma recallGroups_deadlines:
  "recallGroups current 4 [march1, march15, april1] [] constantScore sameTopic =
     [(april1, [march15, march1])]"
proof -
  have "resolveGroup [april1, march15, march1] = (april1, [march15, march1])"
    by (simp add: resolveGroup_def march1_def march15_def april1_def)
  then show ?thesis
    by (simp add: recallGroups_def candidates_deadlines rank_deadlines sameTopic_def)
qed

lemma recall_deadlines:
  "recall current 4 [march1, march15, april1] [] constantScore sameTopic = [april1]"
proof -
  have "rq_limit current = 5" by (simp add: current_def)
  then show ?thesis by (simp add: recall_def recallGroups_deadlines)
qed

lemma recall_framework_atFive:
  "recall atFive 4 [frameworkX, frameworkY] [] constantScore sameTopic = [frameworkX]"
proof -
  have "candidates atFive 4 [frameworkX, frameworkY] [] = [frameworkX]"
    by (simp add: candidates_def atFive_def validAt_def frameworkX_def frameworkY_def)
  moreover have "resolveGroup [frameworkX] = (frameworkX, [])"
    by (simp add: resolveGroup_def)
  ultimately show ?thesis
    by (simp add: recall_def recallGroups_def rank_def atFive_def)
qed

lemma recall_framework_atEleven:
  "recall atEleven 4 [frameworkX, frameworkY] [] constantScore sameTopic = [frameworkY]"
proof -
  have "candidates atEleven 4 [frameworkX, frameworkY] [] = [frameworkY]"
    by (simp add: candidates_def atEleven_def validAt_def frameworkX_def frameworkY_def)
  moreover have "resolveGroup [frameworkY] = (frameworkY, [])"
    by (simp add: resolveGroup_def)
  ultimately show ?thesis
    by (simp add: recall_def recallGroups_def rank_def atEleven_def)
qed

text \<open>
  C3 (as amended). In every recall, for every group of the dedup phase with its
  retained candidate \<open>r\<close> and dedup set \<open>ds\<close>: the group is the set of all candidates
  with the key of \<open>r\<close>, and it is the only group with that key; if the group has an
  active member, then \<open>r\<close> is active and no active member of the group has a later
  \<open>valid_from\<close>; every other member of the group is in the dedup set of \<open>r\<close> and is
  not returned. Every candidate is in some group, and every returned memory is the
  retained candidate of a group.
\<close>

theorem recall_dedup_newest_active:
  assumes grp: "(r, ds) \<in> set (recallGroups q factor seeds surfaced score key)"
  shows "set (r # ds) = {m \<in> set (candidates q factor seeds surfaced). key m = key r} \<and>
         r \<notin> set ds \<and>
         ((\<exists>m\<in>set (r # ds). status m = Active) \<longrightarrow>
            status r = Active \<and>
            (\<forall>m\<in>set (r # ds). status m = Active \<longrightarrow> valid_from m \<le> valid_from r)) \<and>
         (\<forall>m\<in>set ds. m \<notin> set (recall q factor seeds surfaced score key)) \<and>
         (\<forall>p\<in>set (recallGroups q factor seeds surfaced score key).
            key (fst p) = key r \<longrightarrow> p = (r, ds)) \<and>
         (\<forall>m\<in>set (candidates q factor seeds surfaced).
            \<exists>p\<in>set (recallGroups q factor seeds surfaced score key). m \<in> set (fst p # snd p)) \<and>
         set (recall q factor seeds surfaced score key) \<subseteq>
           fst ` set (recallGroups q factor seeds surfaced score key)"
proof -
  define xs where "xs = rank score (candidates q factor seeds surfaced)"
  have dist: "distinct xs"
    by (simp add: xs_def rank_distinct candidates_distinct)
  have setxs: "set xs = set (candidates q factor seeds surfaced)"
    by (simp add: xs_def rank_set)
  from grp have in_dedup: "(r, ds) \<in> set (dedup key xs)"
    by (simp add: recallGroups_def xs_def)
  from dedup_group[OF this] dist obtain g where g: "g \<noteq> []"
    "set g = {m \<in> set xs. key m = key r}" "distinct g" "resolveGroup g = (r, ds)"
    by blast
  from resolveGroup_retained(1,2)[OF g(1) g(4)] have rg: "r \<in> set g" and ds: "ds = remove1 r g" .
  from g(3) ds have rds: "r \<notin> set ds" by simp
  from g(3) ds rg have grp_set: "set (r # ds) = set g" by auto
  with g(2) setxs have c1: "set (r # ds) = {m \<in> set (candidates q factor seeds surfaced). key m = key r}"
    by simp
  have c3: "(\<exists>m\<in>set (r # ds). status m = Active) \<longrightarrow>
      status r = Active \<and> (\<forall>m\<in>set (r # ds). status m = Active \<longrightarrow> valid_from m \<le> valid_from r)"
    using resolveGroup_retained(3)[OF g(1) g(4)] unfolding grp_set by blast
  have inj: "inj_on (\<lambda>p. key (fst p)) (set (dedup key xs))"
    using dedup_keys_distinct[of key xs] by (simp add: distinct_map)
  have groups: "recallGroups q factor seeds surfaced score key = dedup key xs"
    by (simp add: recallGroups_def xs_def)
  have c4: "\<forall>m\<in>set ds. m \<notin> set (recall q factor seeds surfaced score key)"
  proof (intro ballI notI)
    fix m assume m: "m \<in> set ds" and ret: "m \<in> set (recall q factor seeds surfaced score key)"
    from m grp_set g(2) have km: "key m = key r" by auto
    from ret obtain ds' where "(m, ds') \<in> set (recallGroups q factor seeds surfaced score key)"
      using recall_subset_retained by blast
    then have m_in: "(m, ds') \<in> set (dedup key xs)"
      by (simp add: groups)
    from inj_onD[OF inj _ m_in in_dedup] km have "(m, ds') = (r, ds)" by simp
    with m rds show False by simp
  qed
  have c6: "\<forall>p\<in>set (recallGroups q factor seeds surfaced score key).
      key (fst p) = key r \<longrightarrow> p = (r, ds)"
  proof (intro ballI impI)
    fix p assume p: "p \<in> set (recallGroups q factor seeds surfaced score key)"
      and k: "key (fst p) = key r"
    from p have "p \<in> set (dedup key xs)" by (simp add: groups)
    from inj_onD[OF inj _ this in_dedup] k show "p = (r, ds)" by simp
  qed
  have c7: "\<forall>m\<in>set (candidates q factor seeds surfaced).
      \<exists>p\<in>set (recallGroups q factor seeds surfaced score key). m \<in> set (fst p # snd p)"
  proof
    fix m assume "m \<in> set (candidates q factor seeds surfaced)"
    then have mx: "m \<in> set xs" by (simp add: setxs)
    from dedup_covers[OF this] obtain r' ds' where p: "(r', ds') \<in> set (dedup key xs)"
      and k: "key r' = key m" by blast
    from dedup_group[OF p] obtain g' where g': "g' \<noteq> []"
      "set g' = {y \<in> set xs. key y = key r'}" "resolveGroup g' = (r', ds')"
      by blast
    from resolveGroup_retained(1,2)[OF g'(1) g'(3)]
    have "r' \<in> set g'" and ds': "ds' = remove1 r' g'" .
    have "set g' \<subseteq> set (r' # ds')"
    proof
      fix y assume y: "y \<in> set g'"
      show "y \<in> set (r' # ds')"
      proof (cases "y = r'")
        case True
        then show ?thesis by simp
      next
        case False
        with y have "y \<in> set (remove1 r' g')" by (simp add: in_set_remove1)
        with ds' show ?thesis by simp
      qed
    qed
    moreover from mx k g'(2) have "m \<in> set g'" by simp
    ultimately have "m \<in> set (fst (r', ds') # snd (r', ds'))" by auto
    with p show "\<exists>p\<in>set (recallGroups q factor seeds surfaced score key). m \<in> set (fst p # snd p)"
      unfolding groups by blast
  qed
  have c5: "set (recall q factor seeds surfaced score key) \<subseteq>
      fst ` set (recallGroups q factor seeds surfaced score key)"
    using recall_subset_retained by force
  from c1 rds c3 c4 c6 c7 c5 show ?thesis by blast
qed

theorem recall_dedup_newest_active_witness:
  "(april1, [march15, march1]) \<in>
     set (recallGroups current 4 [march1, march15, april1] [] constantScore sameTopic) \<and>
   status march1 = Active \<and> status april1 = Active \<and>
   valid_from march1 \<le> valid_from april1 \<and> valid_from march15 \<le> valid_from april1 \<and>
   march15 \<notin> set (recall current 4 [march1, march15, april1] [] constantScore sameTopic) \<and>
   march1 \<notin> set (recall current 4 [march1, march15, april1] [] constantScore sameTopic) \<and>
   recall current 4 [march1, march15, april1] [] constantScore sameTopic = [april1]"
proof -
  have grp: "(april1, [march15, march1]) \<in>
      set (recallGroups current 4 [march1, march15, april1] [] constantScore sameTopic)"
    by (simp add: recallGroups_deadlines)
  note newest = recall_dedup_newest_active[OF grp]
  have act: "status march1 = Active" "status march15 = Active" by (simp_all add: march1_def march15_def)
  with newest have "status april1 = Active"
    and "valid_from march1 \<le> valid_from april1" and "valid_from march15 \<le> valid_from april1"
    by auto
  moreover from newest
  have "march15 \<notin> set (recall current 4 [march1, march15, april1] [] constantScore sameTopic)"
    and "march1 \<notin> set (recall current 4 [march1, march15, april1] [] constantScore sameTopic)"
    by auto
  ultimately show ?thesis using grp act recall_deadlines by blast
qed

lemma recallGroups_framework_atFive:
  "recallGroups atFive 4 [frameworkX, frameworkY] [] constantScore sameTopic = [(frameworkX, [])]"
proof -
  have "candidates atFive 4 [frameworkX, frameworkY] [] = [frameworkX]"
    by (simp add: candidates_def atFive_def validAt_def frameworkX_def frameworkY_def)
  moreover have "resolveGroup [frameworkX] = (frameworkX, [])"
    by (simp add: resolveGroup_def)
  ultimately show ?thesis
    by (simp add: recallGroups_def rank_def)
qed

lemma recallGroups_reviewDue:
  "recallGroups current 4 [reviewDue] [] constantScore sameTopic = [(reviewDue, [])]"
proof -
  have "candidates current 4 [reviewDue] [] = [reviewDue]"
    by (simp add: candidates_def current_def reviewDue_def)
  moreover have "resolveGroup [reviewDue] = (reviewDue, [])"
    by (simp add: resolveGroup_def)
  ultimately show ?thesis
    by (simp add: recallGroups_def rank_def)
qed

text \<open>
  C3 as stated, for every group, fails on a group without an active member, which the
  scenarios of section 8 require to be returned. Point-in-time recall (scenario 5): at
  an instant when only the superseded \<open>uses framework X\<close> was valid, its group consists
  of that memory alone, and the candidate retained and returned is superseded, not
  active. Aggregation routing (scenario 2): the group of a pending commitment retains
  and returns a pending memory.
\<close>

theorem recall_dedup_newest_active_counterexample:
  "recallGroups atFive 4 [frameworkX, frameworkY] [] constantScore sameTopic = [(frameworkX, [])] \<and>
   recall atFive 4 [frameworkX, frameworkY] [] constantScore sameTopic = [frameworkX] \<and>
   status frameworkX = Superseded \<and> status frameworkX \<noteq> Active \<and>
   recallGroups current 4 [reviewDue] [] constantScore sameTopic = [(reviewDue, [])] \<and>
   recall current 4 [reviewDue] [] constantScore sameTopic = [reviewDue] \<and>
   status reviewDue = Pending \<and> status reviewDue \<noteq> Active"
proof -
  have "rq_limit atFive = 5" "rq_limit current = 5"
    by (simp_all add: atFive_def current_def)
  then have "recall atFive 4 [frameworkX, frameworkY] [] constantScore sameTopic = [frameworkX]"
    and "recall current 4 [reviewDue] [] constantScore sameTopic = [reviewDue]"
    by (simp_all add: recall_def recallGroups_framework_atFive recallGroups_reviewDue)
  moreover have "status frameworkX = Superseded" "status reviewDue = Pending"
    by (simp_all add: frameworkX_def reviewDue_def)
  ultimately show ?thesis
    by (simp add: recallGroups_framework_atFive recallGroups_reviewDue)
qed

text \<open>
  C7. In every recall that supplies a point in time \<open>at\<close>, every returned memory
  satisfies \<open>valid_from \<le> at < valid_until\<close> (an open \<open>valid_until\<close> counting as
  infinite).
\<close>

theorem recall_point_in_time:
  assumes "rq_at q = Some t"
    and "m \<in> set (recall q factor seeds surfaced score key)"
  shows "valid_from m \<le> t \<and> (case valid_until m of None \<Rightarrow> True | Some u \<Rightarrow> t < u)"
proof -
  from assms(2) have "m \<in> set (candidates q factor seeds surfaced)"
    by (rule recall_subset_candidates)
  with assms(1) have "validAt t m" by (rule candidates_validAt)
  then show ?thesis by (simp add: validAt_def)
qed

theorem recall_point_in_time_witness:
  "rq_at atFive = Some 5 \<and>
   frameworkX \<in> set (recall atFive 4 [frameworkX, frameworkY] [] constantScore sameTopic) \<and>
   valid_from frameworkX \<le> 5 \<and>
   (case valid_until frameworkX of None \<Rightarrow> True | Some u \<Rightarrow> 5 < u)"
proof -
  have a: "rq_at atFive = Some 5" by (simp add: atFive_def)
  have m: "frameworkX \<in> set (recall atFive 4 [frameworkX, frameworkY] [] constantScore sameTopic)"
    by (simp add: recall_framework_atFive)
  from recall_point_in_time[OF a m] a m show ?thesis by blast
qed

end
